theory Spec2Isabelle
  imports Main "HOL-Library.Monad_Syntax"
begin

section \<open>Strings as the Python source uses them\<close>

text \<open>
  Strings are lists of characters with the code points 0 to 255. Among these \<^verbatim>\<open>\d\<close>
  matches the ten decimal digits, \<^verbatim>\<open>str.strip\<close> removes the twelve characters for which
  \<^verbatim>\<open>str.isspace\<close> holds, and the letters of the patterns of the source have their ASCII
  case pairs as only partners under \<^verbatim>\<open>re.IGNORECASE\<close>.
\<close>

definition isdigit :: "char \<Rightarrow> bool" where
  "isdigit c = (c \<in> set ''0123456789'')"

definition isspace :: "char \<Rightarrow> bool" where
  "isspace c = (c \<in> set [CHR '' '', CHR 0x09, CHR 0x0A, CHR 0x0B, CHR 0x0C, CHR 0x0D,
                          CHR 0x1C, CHR 0x1D, CHR 0x1E, CHR 0x1F, CHR 0x85, CHR 0xA0])"

definition strip :: "string \<Rightarrow> string" where
  "strip s = rev (dropWhile isspace (rev (dropWhile isspace s)))"

text \<open>
  \<^verbatim>\<open>str.lower\<close> on the code points 0 to 255: the 26 ASCII capitals and the 30 capitals
  from 0xC0 to 0xDE (0xD7 is the multiplication sign) go to the code point 0x20 above them.
\<close>

definition capitals :: string where
  "capitals = ''ABCDEFGHIJKLMNOPQRSTUVWXYZ'' @
     [CHR 0xC0, CHR 0xC1, CHR 0xC2, CHR 0xC3, CHR 0xC4, CHR 0xC5, CHR 0xC6, CHR 0xC7,
      CHR 0xC8, CHR 0xC9, CHR 0xCA, CHR 0xCB, CHR 0xCC, CHR 0xCD, CHR 0xCE, CHR 0xCF,
      CHR 0xD0, CHR 0xD1, CHR 0xD2, CHR 0xD3, CHR 0xD4, CHR 0xD5, CHR 0xD6, CHR 0xD8,
      CHR 0xD9, CHR 0xDA, CHR 0xDB, CHR 0xDC, CHR 0xDD, CHR 0xDE]"

definition smalls :: string where
  "smalls = ''abcdefghijklmnopqrstuvwxyz'' @
     [CHR 0xE0, CHR 0xE1, CHR 0xE2, CHR 0xE3, CHR 0xE4, CHR 0xE5, CHR 0xE6, CHR 0xE7,
      CHR 0xE8, CHR 0xE9, CHR 0xEA, CHR 0xEB, CHR 0xEC, CHR 0xED, CHR 0xEE, CHR 0xEF,
      CHR 0xF0, CHR 0xF1, CHR 0xF2, CHR 0xF3, CHR 0xF4, CHR 0xF5, CHR 0xF6, CHR 0xF8,
      CHR 0xF9, CHR 0xFA, CHR 0xFB, CHR 0xFC, CHR 0xFD, CHR 0xFE]"

definition lower_char :: "char \<Rightarrow> char" where
  "lower_char c =
     (case map_of (zip capitals smalls) c of
        None \<Rightarrow> c
      | Some l \<Rightarrow> l)"

definition lower :: "string \<Rightarrow> string" where
  "lower s = map lower_char s"

definition startswith :: "string \<Rightarrow> string \<Rightarrow> bool" where
  "startswith s p = (take (length p) s = p)"

definition endswith :: "string \<Rightarrow> string \<Rightarrow> bool" where
  "endswith s p = (length p \<le> length s \<and> drop (length s - length p) s = p)"

text \<open>Python's \<^verbatim>\<open>sub in s\<close>: \<open>sub\<close> occurs in \<open>s\<close> as a contiguous block.\<close>

fun str_in :: "string \<Rightarrow> string \<Rightarrow> bool" where
  "str_in sub [] = (sub = [])"
| "str_in sub (c # cs) = (startswith (c # cs) sub \<or> str_in sub cs)"

text \<open>\<^verbatim>\<open>os.path.basename\<close> and the two-argument \<^verbatim>\<open>os.path.join\<close> of \<^verbatim>\<open>posixpath\<close>.\<close>

definition basename :: "string \<Rightarrow> string" where
  "basename p = rev (takeWhile (\<lambda>c. c \<noteq> CHR ''/'') (rev p))"

definition os_path_join :: "string \<Rightarrow> string \<Rightarrow> string" where
  "os_path_join a b =
     (if startswith b ''/'' then b
      else if a = [] \<or> endswith a ''/'' then a @ b
      else a @ ''/'' @ b)"

text \<open>
  \<^verbatim>\<open>os.path.splitext(name)[0]\<close> for a name without a directory part: the name is cut at
  its last dot, unless only dots stand before that dot.
\<close>

definition splitext_root :: "string \<Rightarrow> string" where
  "splitext_root name =
     (if CHR ''.'' \<notin> set name then name
      else (let root = take (length name - length (takeWhile (\<lambda>c. c \<noteq> CHR ''.'') (rev name)) - 1) name
            in if list_ex (\<lambda>c. c \<noteq> CHR ''.'') root then root else name))"

section \<open>Regular expressions of the source\<close>

text \<open>
  Every pattern of the source is a sequence of literals and greedy digit runs \<^verbatim>\<open>\d+\<close>,
  and each digit run is followed by a literal that starts with a character that is not a
  digit. Giving back digits of a run can therefore never turn a failed attempt into a
  match, so the greedy attempt is the only one and a match at a position is a function.
\<close>

definition re_digits :: "string \<Rightarrow> (string \<times> string) option" where
  "re_digits s =
     (if takeWhile isdigit s = [] then None
      else Some (takeWhile isdigit s, dropWhile isdigit s))"

definition re_lit :: "string \<Rightarrow> string \<Rightarrow> string option" where
  "re_lit p s = (if startswith s p then Some (drop (length p) s) else None)"

text \<open>\<^verbatim>\<open>re.search\<close>: the match at the leftmost position that has one, the end included.\<close>

fun re_search :: "(string \<Rightarrow> 'a option) \<Rightarrow> string \<Rightarrow> 'a option" where
  "re_search m [] = m []"
| "re_search m (c # cs) =
     (case m (c # cs) of
        Some v \<Rightarrow> Some v
      | None \<Rightarrow> re_search m cs)"

text \<open>Decimal digits to a number and back: \<^verbatim>\<open>int\<close> of a digit run, and \<^verbatim>\<open>str\<close>.\<close>

definition digit_val :: "char \<Rightarrow> int" where
  "digit_val c =
     (case map_of (zip ''0123456789'' [0, 1, 2, 3, 4, 5, 6, 7, 8, 9]) c of
        None \<Rightarrow> 0
      | Some v \<Rightarrow> v)"

definition int_of_digits :: "string \<Rightarrow> int" where
  "int_of_digits ds = foldl (\<lambda>n c. 10 * n + digit_val c) 0 ds"

function nat_digits :: "nat \<Rightarrow> string" where
  "nat_digits n =
     (if n < 10 then [''0123456789'' ! n]
      else nat_digits (n div 10) @ [''0123456789'' ! (n mod 10)])"
  by pat_completeness auto
termination
  by (relation "measure id") auto

definition str_of_int :: "int \<Rightarrow> string" where
  "str_of_int i = (if i < 0 then CHR ''-'' # nat_digits (nat (- i)) else nat_digits (nat i))"

text \<open>
  The exceptions that leave a function of the source. \<open>ValueError\<close> is the one that the
  source raises itself, with its message; \<open>IntValueError\<close> is the \<^verbatim>\<open>ValueError\<close> that
  \<^verbatim>\<open>int\<close> raises, whose message is not modelled.
\<close>

datatype error = ValueError string | IntValueError | IndexError | TypeError | OSError

text \<open>
  The digits of a decimal literal as \<^verbatim>\<open>int(s)\<close> accepts them: digit runs separated by
  single underscores.
\<close>

function valid_int_body :: "string \<Rightarrow> bool" where
  "valid_int_body s =
     (if takeWhile isdigit s = [] then False
      else (case dropWhile isdigit s of
              [] \<Rightarrow> True
            | c # r \<Rightarrow> c = CHR ''_'' \<and> valid_int_body r))"
  by pat_completeness auto
termination
proof (relation "measure length")
  fix s :: string and c r
  assume "dropWhile isdigit s = c # r"
  then have "Suc (length r) = length (dropWhile isdigit s)" by simp
  also have "\<dots> \<le> length s" by (rule length_dropWhile_le)
  finally show "(r, s) \<in> measure length" by simp
qed simp

declare valid_int_body.simps [simp del]

text \<open>
  \<^verbatim>\<open>int(s)\<close> of a string: the white space that \<^verbatim>\<open>int\<close> skips at both ends (not the
  separators 0x1C to 0x1F), a sign, the digits. The digits, leading zeros included and
  underscores not, may be at most 4300 (the default of \<^verbatim>\<open>sys.get_int_max_str_digits\<close>,
  which the source leaves as it is).
\<close>

definition int_space :: "char \<Rightarrow> bool" where
  "int_space c = (c \<in> set [CHR '' '', CHR 0x09, CHR 0x0A, CHR 0x0B, CHR 0x0C, CHR 0x0D,
                            CHR 0x85, CHR 0xA0])"

definition int_max_str_digits :: nat where
  "int_max_str_digits = 4300"

definition py_int :: "string \<Rightarrow> error + int" where
  "py_int s =
     (let t = rev (dropWhile int_space (rev (dropWhile int_space s)));
          neg = startswith t ''-'';
          body = (if startswith t ''-'' \<or> startswith t ''+'' then drop 1 t else t);
          digits = filter (\<lambda>c. c \<noteq> CHR ''_'') body
      in if valid_int_body body \<and> length digits \<le> int_max_str_digits
         then Inr ((if neg then - 1 else 1) * int_of_digits digits)
         else Inl IntValueError)"

text \<open>A loop whose body may raise: it ends at the first exception.\<close>

fun foldl_result :: "('s \<Rightarrow> 'a \<Rightarrow> error + 's) \<Rightarrow> 's \<Rightarrow> 'a list \<Rightarrow> error + 's" where
  "foldl_result f s [] = Inr s"
| "foldl_result f s (x # xs) =
     (case f s x of
        Inl e \<Rightarrow> Inl e
      | Inr s' \<Rightarrow> foldl_result f s' xs)"

section \<open>VersionCatalogCrawler\<close>

text \<open>
  A page is what \<^verbatim>\<open>soup.find_all('a', href=True)\<close> sees of it: its anchors in page
  order, each with its visible text and its link target. A request that raises
  \<^verbatim>\<open>requests.RequestException\<close> has no page.
\<close>

record anchor =
  get_text :: string
  href :: string

record entry =
  release :: int
  build_id :: string
  full_name :: string
  source_url :: string

type_synonym key = "string \<times> string"

type_synonym version_dict = "key \<rightharpoonup> entry"

text \<open>
  \<^verbatim>\<open>pattern.match(link_text)\<close> for \<^verbatim>\<open>glibc-(\d+\.\d+)-(\d+)\.(fc\d+)\<close>: a match at the
  start of the text, with its three groups.
\<close>

definition glibc_pattern_match :: "string \<Rightarrow> (string \<times> string \<times> string) option" where
  "glibc_pattern_match s =
     do {
       r0 \<leftarrow> re_lit ''glibc-'' s;
       (a, r1) \<leftarrow> re_digits r0;
       r2 \<leftarrow> re_lit ''.'' r1;
       (b, r3) \<leftarrow> re_digits r2;
       r4 \<leftarrow> re_lit ''-'' r3;
       (rel, r5) \<leftarrow> re_digits r4;
       r6 \<leftarrow> re_lit ''.fc'' r5;
       (n, r7) \<leftarrow> re_digits r6;
       Some (a @ ''.'' @ b, rel, ''fc'' @ n)
     }"

text \<open>\<^verbatim>\<open>re.search(r'buildID=(\d+)', href)\<close>, reduced to its group.\<close>

definition buildID_match_at :: "string \<Rightarrow> string option" where
  "buildID_match_at s =
     do {
       r \<leftarrow> re_lit ''buildID='' s;
       (d, r') \<leftarrow> re_digits r;
       Some d
     }"

text \<open>
  The row a matching anchor contributes (lines 53 to 68 and the stored value): the release
  is converted first, and without a build id in the link target there is no row.
\<close>

definition catalog_row ::
  "string \<Rightarrow> string \<Rightarrow> string \<times> string \<times> string \<Rightarrow> string \<Rightarrow> error + (key \<times> entry) option" where
  "catalog_row url link_text groups link_href =
     (case groups of (version, rel, disttag) \<Rightarrow>
        (case py_int rel of
           Inl e \<Rightarrow> Inl e
         | Inr r \<Rightarrow>
             Inr (case re_search buildID_match_at link_href of
                    None \<Rightarrow> None
                  | Some b \<Rightarrow>
                      if b \<noteq> [] \<and> startswith disttag ''fc''
                      then Some ((version, disttag),
                                 \<lparr>release = r, build_id = b,
                                  full_name = link_text, source_url = url\<rparr>)
                      else None)))"

text \<open>Keep only the lowest release number for each key (lines 72 to 78).\<close>

definition store_lowest :: "version_dict \<Rightarrow> key \<times> entry \<Rightarrow> version_dict" where
  "store_lowest version_dict row =
     (case row of (key, e) \<Rightarrow>
        (case version_dict key of
           None \<Rightarrow> version_dict(key \<mapsto> e)
         | Some old \<Rightarrow> if release e < release old then version_dict(key \<mapsto> e) else version_dict))"

text \<open>
  The body of the loop over the anchors: the state is \<open>(glibc_found, version_dict)\<close>, and
  the exception of the conversion has no handler.
\<close>

definition scrape_link ::
  "string \<Rightarrow> bool \<times> version_dict \<Rightarrow> anchor \<Rightarrow> error + bool \<times> version_dict" where
  "scrape_link url st link =
     (let link_text = strip (get_text link) in
      case glibc_pattern_match link_text of
        None \<Rightarrow> Inr st
      | Some groups \<Rightarrow>
          (case catalog_row url link_text groups (href link) of
             Inl e \<Rightarrow> Inl e
           | Inr None \<Rightarrow> Inr (True, snd st)
           | Inr (Some row) \<Rightarrow> Inr (True, store_lowest (snd st) row)))"

definition scrape_glibc_versions_from_page ::
  "anchor list option \<Rightarrow> string \<Rightarrow> version_dict \<Rightarrow> error + bool \<times> version_dict" where
  "scrape_glibc_versions_from_page response url version_dict =
     (case response of
        None \<Rightarrow> Inr (False, version_dict)
      | Some links \<Rightarrow> foldl_result (scrape_link url) (False, version_dict) links)"

text \<open>
  An anchor whose release the conversion of line 54 refuses: its text matches the
  version pattern and the release has more digits than \<^verbatim>\<open>int\<close> converts.
\<close>

definition release_too_long :: "anchor \<Rightarrow> bool" where
  "release_too_long link =
     (case glibc_pattern_match (strip (get_text link)) of
        None \<Rightarrow> False
      | Some (version, rel, disttag) \<Rightarrow> int_max_str_digits < length rel)"

text \<open>
  The rows that a sequence of anchors, each with the URL of its page, contributes to the
  catalog, in the order the crawler meets them, and the catalog that the loop body makes
  of the sequence, from the empty one.
\<close>

definition row_of :: "string \<times> anchor \<Rightarrow> error + (key \<times> entry) option" where
  "row_of v =
     (case v of (url, link) \<Rightarrow>
        (case glibc_pattern_match (strip (get_text link)) of
           None \<Rightarrow> Inr None
         | Some groups \<Rightarrow> catalog_row url (strip (get_text link)) groups (href link)))"

definition rows_of :: "(string \<times> anchor) list \<Rightarrow> (key \<times> entry) list" where
  "rows_of visits =
     List.map_filter (\<lambda>v. case row_of v of Inl e \<Rightarrow> None | Inr row \<Rightarrow> row) visits"

definition scrape_visits :: "(string \<times> anchor) list \<Rightarrow> error + version_dict" where
  "scrape_visits visits =
     (case foldl_result (\<lambda>st (url, link). scrape_link url st link) (False, Map.empty) visits of
        Inl e \<Rightarrow> Inl e
      | Inr st \<Rightarrow> Inr (snd st))"

subsection \<open>Pagination\<close>

text \<open>
  The functions of \<^verbatim>\<open>urllib.parse\<close> that the source calls are parameters of the model,
  taken as total: a call of them that raises is outside the model.
  \<^verbatim>\<open>parse_qs\<close> returns a dictionary from parameter names to their lists of values, in
  the order of the query string; \<^verbatim>\<open>urlencode\<close> is called with \<^verbatim>\<open>doseq=True\<close>.
\<close>

record parsed_url =
  scheme :: string
  netloc :: string
  path :: string
  query :: string
  fragment :: string

record urllib =
  urljoin :: "string \<Rightarrow> string \<Rightarrow> string"
  urlparse :: "string \<Rightarrow> parsed_url"
  parse_qs :: "string \<Rightarrow> (string \<times> string list) list"
  urlencode :: "(string \<times> string list) list \<Rightarrow> string"

definition base_url :: string where
  "base_url = ''https://koji.fedoraproject.org/koji/packageinfo?buildStart=0&packageID=57&buildOrder=-completion_time&tagOrder=name&tagStart=0#buildlist''"

text \<open>\<^verbatim>\<open>base_url.replace('buildStart=0', 'buildStart=50')\<close>, of the constant above.\<close>

definition base_url_buildStart_50 :: string where
  "base_url_buildStart_50 = ''https://koji.fedoraproject.org/koji/packageinfo?buildStart=50&packageID=57&buildOrder=-completion_time&tagOrder=name&tagStart=0#buildlist''"

text \<open>The test of line 133 on the stripped text of an anchor.\<close>

definition next_page_indicator :: "string \<Rightarrow> bool" where
  "next_page_indicator link_text =
     (str_in ''>>>'' link_text \<or> str_in ''>>'' link_text \<or> str_in ''Next'' (lower link_text))"

text \<open>The loop of lines 128 to 135: the first anchor that passes the test.\<close>

definition find_next_link :: "anchor list \<Rightarrow> anchor option" where
  "find_next_link pagination_links =
     find (\<lambda>link. next_page_indicator (strip (get_text link))) pagination_links"

text \<open>Lines 139 to 154: the next URL built from the current one.\<close>

definition construct_next_url :: "urllib \<Rightarrow> string \<Rightarrow> error + string" where
  "construct_next_url lib current =
     (let parsed = urlparse lib current;
          query_params = parse_qs lib (query parsed)
      in case map_of query_params ''buildStart'' of
           None \<Rightarrow> Inr base_url_buildStart_50
         | Some [] \<Rightarrow> Inl IndexError
         | Some (v # vs) \<Rightarrow>
             (case py_int v of
                Inl e \<Rightarrow> Inl e
              | Inr current_start \<Rightarrow>
                  (let next_start = current_start + 50;
                       new_query = urlencode lib
                         (map (\<lambda>(k, vals). if k = ''buildStart'' then (k, [str_of_int next_start]) else (k, vals))
                            query_params)
                   in Inr (scheme parsed @ ''://'' @ netloc parsed @ path parsed @ ''?''
                           @ new_query @ fragment parsed))))"

definition next_page_url :: "urllib \<Rightarrow> string \<Rightarrow> anchor list \<Rightarrow> error + string" where
  "next_page_url lib current pagination_links =
     (let next_url = (case find_next_link pagination_links of
                        None \<Rightarrow> []
                      | Some link \<Rightarrow> urljoin lib current (href link))
      in if next_url = [] then construct_next_url lib current else Inr next_url)"

text \<open>
  The state of the loop of \<^verbatim>\<open>get_glibc_versions_all_pages\<close>, with the requests sent so
  far as a trace. The site answers the \<open>n\<close>-th request of the run, for a URL, with a page
  or with a failure; a page is requested twice, once by the scraper and once for its
  pagination links. The scraper is called outside the \<^verbatim>\<open>try\<close>, and the handler of the
  \<^verbatim>\<open>try\<close> is for the HTTP client's exception only.
\<close>

record crawl_state =
  version_dict :: version_dict
  processed_urls :: "string set"
  current_url :: string
  page_count :: nat
  requests :: "string list"

partial_function (option) crawl_loop ::
  "urllib \<Rightarrow> (nat \<Rightarrow> string \<Rightarrow> anchor list option) \<Rightarrow> crawl_state \<Rightarrow> (error + crawl_state) option" where
  "crawl_loop lib site st =
     (if current_url st \<noteq> [] \<and> current_url st \<notin> processed_urls st then
        (let url = current_url st in
         case scrape_glibc_versions_from_page (site (length (requests st)) url) url (version_dict st) of
           Inl e \<Rightarrow> Some (Inl e)
         | Inr scraped \<Rightarrow>
             (let st1 = st\<lparr>version_dict := snd scraped,
                          processed_urls := insert url (processed_urls st),
                          page_count := page_count st + 1,
                          requests := requests st @ [url]\<rparr>
              in if \<not> fst scraped then Some (Inr st1)
                 else (let st2 = st1\<lparr>requests := requests st1 @ [url]\<rparr>
                       in case site (length (requests st1)) url of
                            None \<Rightarrow> Some (Inr st2)
                          | Some pagination_links \<Rightarrow>
                              (case next_page_url lib url pagination_links of
                                 Inl e \<Rightarrow> Some (Inl e)
                               | Inr next_url \<Rightarrow>
                                   if next_url \<in> processed_urls st2 then Some (Inr st2)
                                   else crawl_loop lib site (st2\<lparr>current_url := next_url\<rparr>)))))
      else Some (Inr st))"

definition get_glibc_versions_all_pages ::
  "urllib \<Rightarrow> (nat \<Rightarrow> string \<Rightarrow> anchor list option) \<Rightarrow> (error + crawl_state) option" where
  "get_glibc_versions_all_pages lib site =
     crawl_loop lib site
       \<lparr>version_dict = Map.empty, processed_urls = {}, current_url = base_url,
        page_count = 0, requests = []\<rparr>"

section \<open>BuildResolver\<close>

definition target_architectures :: "string list" where
  "target_architectures = [''aarch64'', ''i686'', ''x86_64'']"

definition excluded_substrings :: "string list" where
  "excluded_substrings = [''debuginfo'', ''debugsource'', ''devel'', ''headers'', ''static'', ''utils'']"

text \<open>The test of lines 204 to 206 on a link target.\<close>

definition is_glibc_rpm_link :: "string \<Rightarrow> bool" where
  "is_glibc_rpm_link h =
     (endswith h ''.rpm'' \<and> str_in ''glibc-'' h \<and>
      \<not> list_ex (\<lambda>exclude. str_in exclude h) excluded_substrings)"

text \<open>One attempt of \<^verbatim>\<open>glibc-\d+\.\d+-\d+\.fc\d+\.{arch}\.rpm\<close> at the start of a string.\<close>

definition rpm_match_at :: "string \<Rightarrow> string \<Rightarrow> unit option" where
  "rpm_match_at arch s =
     do {
       r0 \<leftarrow> re_lit ''glibc-'' s;
       (a, r1) \<leftarrow> re_digits r0;
       r2 \<leftarrow> re_lit ''.'' r1;
       (b, r3) \<leftarrow> re_digits r2;
       r4 \<leftarrow> re_lit ''-'' r3;
       (rel, r5) \<leftarrow> re_digits r4;
       r6 \<leftarrow> re_lit ''.fc'' r5;
       (n, r7) \<leftarrow> re_digits r6;
       r8 \<leftarrow> re_lit (''.'' @ arch @ ''.rpm'') r7;
       Some ()
     }"

text \<open>
  The loop over the target architectures for one link (lines 209 to 215): the first
  architecture that is in the path, not resolved yet and in the file name takes the link,
  and the loop ends there.
\<close>

fun assign_arch :: "string list \<Rightarrow> string \<Rightarrow> (string \<rightharpoonup> string) \<Rightarrow> (string \<rightharpoonup> string)" where
  "assign_arch [] h rpm_urls = rpm_urls"
| "assign_arch (arch # archs) h rpm_urls =
     (if str_in (''/'' @ arch @ ''/'') h \<and> arch \<notin> dom rpm_urls
      then (if re_search (rpm_match_at arch) h \<noteq> None
            then rpm_urls(arch \<mapsto> h)
            else assign_arch archs h rpm_urls)
      else assign_arch archs h rpm_urls)"

definition resolve_link :: "(string \<rightharpoonup> string) \<Rightarrow> anchor \<Rightarrow> (string \<rightharpoonup> string)" where
  "resolve_link rpm_urls link =
     (if is_glibc_rpm_link (href link)
      then assign_arch target_architectures (href link) rpm_urls
      else rpm_urls)"

definition extract_rpm_urls_from_buildinfo :: "anchor list option \<Rightarrow> (string \<rightharpoonup> string)" where
  "extract_rpm_urls_from_buildinfo response =
     (case response of
        None \<Rightarrow> Map.empty
      | Some links \<Rightarrow> foldl resolve_link Map.empty links)"

text \<open>
  What it is for a link target to match an architecture: the three tests of the source
  together.
\<close>

definition link_matches_arch :: "string \<Rightarrow> string \<Rightarrow> bool" where
  "link_matches_arch arch h =
     (is_glibc_rpm_link h \<and> str_in (''/'' @ arch @ ''/'') h \<and>
      re_search (rpm_match_at arch) h \<noteq> None)"

text \<open>
  The order of the target architectures: \<open>b\<close> stands before \<open>a\<close> in the list.
\<close>

definition earlier_arch :: "string \<Rightarrow> string \<Rightarrow> bool" where
  "earlier_arch b a = (b \<in> set (takeWhile (\<lambda>x. x \<noteq> a) target_architectures))"

text \<open>
  What a mapping owes to the page it was resolved from, with \<open>pos a\<close> the page position
  of the link given to the architecture \<open>a\<close>: the URL of a resolved architecture is
  the link target at its position; two resolved architectures have two positions, so a
  link is given to one architecture only; and every link that matches \<open>a\<close> and stands
  before the link of \<open>a\<close>, or anywhere on the page if \<open>a\<close> has no link, was given to
  an architecture that stands before \<open>a\<close>.
\<close>

definition given_positions :: "anchor list \<Rightarrow> (string \<rightharpoonup> string) \<Rightarrow> (string \<Rightarrow> nat) \<Rightarrow> bool" where
  "given_positions links rpm_urls pos =
     ((\<forall>a u. rpm_urls a = Some u \<longrightarrow> pos a < length links \<and> href (links ! pos a) = u) \<and>
      (\<forall>a b. rpm_urls a \<noteq> None \<and> rpm_urls b \<noteq> None \<and> pos a = pos b \<longrightarrow> a = b) \<and>
      (\<forall>a\<in>set target_architectures. \<forall>j<length links.
         link_matches_arch a (href (links ! j)) \<and> (rpm_urls a = None \<or> j < pos a) \<longrightarrow>
         (\<exists>b. earlier_arch b a \<and> rpm_urls b \<noteq> None \<and> pos b = j)))"

section \<open>ArtifactDownloader\<close>







section \<open>LibraryExtractor\<close>

text \<open>
  The greedy tail \<^verbatim>\<open>(?:\.\d+)*\<close> of the version pattern: the text it takes at the start
  of its argument.
\<close>

function dot_groups :: "string \<Rightarrow> string" where
  "dot_groups [] = []"
| "dot_groups (c # r) =
     (if c = CHR ''.'' \<and> takeWhile isdigit r \<noteq> []
      then c # takeWhile isdigit r @ dot_groups (dropWhile isdigit r)
      else [])"
  by pat_completeness auto
termination
  by (relation "measure length") (auto simp: length_dropWhile_le le_imp_less_Suc)

text \<open>One attempt of \<^verbatim>\<open>(\d+\.\d+(?:\.\d+)*)\<close> at the start of a string: its group.\<close>

definition version_match_at :: "string \<Rightarrow> string option" where
  "version_match_at s =
     do {
       (d1, r1) \<leftarrow> re_digits s;
       r2 \<leftarrow> re_lit ''.'' r1;
       (d2, r3) \<leftarrow> re_digits r2;
       Some (d1 @ ''.'' @ d2 @ dot_groups r3)
     }"

definition create_libc_filename :: "string \<Rightarrow> error + string" where
  "create_libc_filename rpm_filename =
     (case re_search version_match_at rpm_filename of
        Some version \<Rightarrow> Inr (''libc-'' @ version @ ''.so'')
      | None \<Rightarrow> Inl (ValueError (''Could not extract version from filename: '' @ rpm_filename)))"

definition LIBC_PATHS :: "string list" where
  "LIBC_PATHS = [''./usr/lib64/libc.so.6'', ''./usr/lib/libc.so.6'', ''./lib64/libc.so.6'', ''./lib/libc.so.6'']"

text \<open>
  What the world does to one extraction: whether each of the two programs can be started
  (\<^verbatim>\<open>Popen\<close> raises \<^verbatim>\<open>FileNotFoundError\<close> otherwise), the exit status of \<^verbatim>\<open>cpio\<close> for its
  command line, and the files that exist afterwards.
\<close>

record proc_world =
  rpm2cpio_found :: bool
  cpio_found :: bool
  cpio_returncode :: "string list \<Rightarrow> int"
  path_exists :: "string \<Rightarrow> bool"

text \<open>
  The command line of \<^verbatim>\<open>cpio\<close> is built, and \<^verbatim>\<open>create_libc_filename\<close> called, after
  \<^verbatim>\<open>rpm2cpio\<close> has been started and before \<^verbatim>\<open>cpio\<close> is; the only handler is for
  \<^verbatim>\<open>FileNotFoundError\<close>.
\<close>

definition extract_with_rpm2cpio :: "proc_world \<Rightarrow> string \<Rightarrow> string \<Rightarrow> error + string option" where
  "extract_with_rpm2cpio w rpm_file output_dir =
     (if \<not> rpm2cpio_found w then Inr None
      else (case create_libc_filename rpm_file of
              Inl e \<Rightarrow> Inl e
            | Inr name \<Rightarrow>
                (let argv = [''cpio'', ''-idmv''] @ LIBC_PATHS @ [''./lib/'' @ name, ''./lib64/'' @ name]
                 in if \<not> cpio_found w then Inr None
                    else if cpio_returncode w argv = 0
                    then Inr (find (path_exists w)
                                (map (\<lambda>p. os_path_join output_dir (dropWhile (\<lambda>c. c \<in> set ''./'') p))
                                   LIBC_PATHS))
                    else Inr None)))"

definition binary_dir :: string where
  "binary_dir = ''../GlibcDownloads/Fedora/Binaries''"

text \<open>
  The loop of \<^verbatim>\<open>extract_all_rpms\<close> over the downloaded files, each with what the world
  does to its extraction. \<^verbatim>\<open>copy_binary\<close> handles every exception itself and its result
  only selects a message, so it does not appear.
\<close>

fun extract_all_rpms :: "(string \<times> proc_world) list \<Rightarrow> string list \<Rightarrow> error + string list" where
  "extract_all_rpms [] name_list = Inr name_list"
| "extract_all_rpms ((f, w) # files) name_list =
     (case extract_with_rpm2cpio w f binary_dir of
        Inl e \<Rightarrow> Inl e
      | Inr None \<Rightarrow> extract_all_rpms files name_list
      | Inr (Some result) \<Rightarrow>
          if result \<noteq> []
          then extract_all_rpms files (name_list @ [splitext_root (basename f) @ ''_libc.so.6''])
          else extract_all_rpms files name_list)"

section \<open>GadgetCompiler: the noise lines\<close>

text \<open>
  One attempt of \<^verbatim>\<open>\[LOAD\]|\[INFO\]\<close> under \<^verbatim>\<open>re.IGNORECASE\<close> at the start of a string:
  a character of the text matches a character of the pattern when they are the same up to
  letter case.
\<close>

definition noise_match_at :: "string \<Rightarrow> unit option" where
  "noise_match_at s =
     (if lower (take 6 s) = lower ''[LOAD]'' \<or> lower (take 6 s) = lower ''[INFO]''
      then Some () else None)"

text \<open>Lines 553 to 558: the lines written back to the gadget file.\<close>

definition rewrite_gadget_lines :: "string list \<Rightarrow> string list" where
  "rewrite_gadget_lines lines = filter (\<lambda>line. re_search noise_match_at line = None) lines"

section \<open>Rows by key, and concrete pages\<close>

text \<open>
  The entries of a list of rows that have a given key, in the order of the rows.
\<close>

definition entries_with_key :: "key \<Rightarrow> (key \<times> entry) list \<Rightarrow> entry list" where
  "entries_with_key k rows = map snd (filter (\<lambda>r. fst r = k) rows)"

text \<open>Two anchors of a listing page with one key and the releases 5 and 3.\<close>

definition scenario_A :: "(string \<times> anchor) list" where
  "scenario_A =
     [(base_url, \<lparr>get_text = ''glibc-2.39-5.fc40'', href = ''buildinfo?buildID=2400001''\<rparr>),
      (base_url, \<lparr>get_text = ''glibc-2.39-3.fc40'', href = ''buildinfo?buildID=2390077''\<rparr>)]"

text \<open>The same key and release met on two pages, with two build ids.\<close>

definition scenario_equal_release :: "(string \<times> anchor) list" where
  "scenario_equal_release =
     [(base_url, \<lparr>get_text = ''glibc-2.41-1.fc42'', href = ''buildinfo?buildID=2600001''\<rparr>),
      (base_url_buildStart_50,
       \<lparr>get_text = ''glibc-2.41-1.fc42'', href = ''buildinfo?buildID=2600002''\<rparr>)]"



text \<open>
  A stand-in for \<^verbatim>\<open>urllib.parse\<close> on pages whose links are absolute and carry no query.
\<close>

definition absolute_links_lib :: urllib where
  "absolute_links_lib =
     \<lparr>urljoin = (\<lambda>base h. h),
      urlparse = (\<lambda>url. \<lparr>scheme = [], netloc = [], path = url, query = [], fragment = []\<rparr>),
      parse_qs = (\<lambda>q. []),
      urlencode = (\<lambda>params. [])\<rparr>"

text \<open>
  A page whose first link names two architectures, and a detail page with links for
  \<^verbatim>\<open>aarch64\<close> and \<^verbatim>\<open>x86_64\<close>, a development package and nothing for \<^verbatim>\<open>i686\<close>.
\<close>

definition multi_arch_page :: "anchor list" where
  "multi_arch_page =
     [\<lparr>get_text = ''glibc (aarch64)'',
       href = ''/aarch64/x86_64/glibc-2.39-2.fc40.aarch64.rpm?alt=glibc-2.39-2.fc40.x86_64.rpm''\<rparr>,
      \<lparr>get_text = ''glibc (x86_64)'', href = ''/x86_64/glibc-2.39-2.fc40.x86_64.rpm''\<rparr>]"

definition scenario_B :: "anchor list" where
  "scenario_B =
     [\<lparr>get_text = ''glibc-devel'', href = ''/packages/x86_64/glibc-devel-2.39-2.fc40.x86_64.rpm''\<rparr>,
      \<lparr>get_text = ''glibc'', href = ''/packages/aarch64/glibc-2.39-2.fc40.aarch64.rpm''\<rparr>,
      \<lparr>get_text = ''glibc'', href = ''/packages/x86_64/glibc-2.39-2.fc40.x86_64.rpm''\<rparr>]"

section \<open>Properties of the regular expressions\<close>

lemma isdigit_dot: "\<not> isdigit CHR ''.''"
  by (simp add: isdigit_def)

lemma takeWhile_digits_prefix:
  assumes "list_all isdigit d" and "\<not> isdigit c"
  shows "takeWhile isdigit (d @ c # r) = d" and "dropWhile isdigit (d @ c # r) = c # r"
  using assms by (induction d) auto

lemma takeWhile_digits_nonempty:
  "d \<noteq> [] \<Longrightarrow> list_all isdigit d \<Longrightarrow> takeWhile isdigit (d @ r) \<noteq> []"
  by (cases d) auto

lemma re_lit_dot: "re_lit ''.'' s = (case s of [] \<Rightarrow> None | c # r \<Rightarrow> if c = CHR ''.'' then Some r else None)"
  by (cases s) (auto simp: re_lit_def startswith_def)

lemma version_match_at_iff:
  "version_match_at s \<noteq> None \<longleftrightarrow>
     (\<exists>d1 d2 post. s = d1 @ ''.'' @ d2 @ post \<and> d1 \<noteq> [] \<and> d2 \<noteq> [] \<and>
        list_all isdigit d1 \<and> list_all isdigit d2)"
proof
  assume m: "version_match_at s \<noteq> None"
  define d1 where "d1 = takeWhile isdigit s"
  define r1 where "r1 = dropWhile isdigit s"
  from m have d1: "d1 \<noteq> []"
    by (auto simp: version_match_at_def re_digits_def d1_def split: if_splits)
  from m d1 obtain r2 where r1: "r1 = CHR ''.'' # r2" and d2: "takeWhile isdigit r2 \<noteq> []"
    by (auto simp: version_match_at_def re_digits_def re_lit_dot d1_def r1_def
             split: if_splits list.splits)
  have "s = d1 @ r1"
    by (simp add: d1_def r1_def)
  then have "s = d1 @ ''.'' @ takeWhile isdigit r2 @ dropWhile isdigit r2"
    using r1 by simp
  moreover have "list_all isdigit d1" "list_all isdigit (takeWhile isdigit r2)"
    by (auto simp: d1_def list_all_iff dest: set_takeWhileD)
  ultimately show "\<exists>d1 d2 post. s = d1 @ ''.'' @ d2 @ post \<and> d1 \<noteq> [] \<and> d2 \<noteq> [] \<and>
        list_all isdigit d1 \<and> list_all isdigit d2"
    using d1 d2 by blast
next
  assume "\<exists>d1 d2 post. s = d1 @ ''.'' @ d2 @ post \<and> d1 \<noteq> [] \<and> d2 \<noteq> [] \<and>
        list_all isdigit d1 \<and> list_all isdigit d2"
  then obtain d1 d2 post where s: "s = d1 @ CHR ''.'' # d2 @ post" and ne: "d1 \<noteq> []" "d2 \<noteq> []"
    and dg: "list_all isdigit d1" "list_all isdigit d2" by auto
  have t1: "takeWhile isdigit s = d1" "dropWhile isdigit s = CHR ''.'' # d2 @ post"
    unfolding s using takeWhile_digits_prefix [OF dg(1) isdigit_dot] by simp_all
  have t2: "takeWhile isdigit (d2 @ post) \<noteq> []"
    using takeWhile_digits_nonempty [OF ne(2) dg(2)] .
  show "version_match_at s \<noteq> None"
    using ne t2 by (simp add: version_match_at_def re_digits_def re_lit_dot t1)
qed

lemma re_search_iff:
  "re_search m s \<noteq> None \<longleftrightarrow> (\<exists>pre suf. s = pre @ suf \<and> m suf \<noteq> None)"
proof (induction s)
  case Nil
  then show ?case by simp
next
  case (Cons c cs)
  show ?case
  proof (cases "m (c # cs)")
    case None
    have "(\<exists>pre suf. c # cs = pre @ suf \<and> m suf \<noteq> None)
          \<longleftrightarrow> (\<exists>pre suf. cs = pre @ suf \<and> m suf \<noteq> None)"
    proof
      assume "\<exists>pre suf. c # cs = pre @ suf \<and> m suf \<noteq> None"
      then obtain pre suf where e: "c # cs = pre @ suf" and ms: "m suf \<noteq> None" by blast
      show "\<exists>pre suf. cs = pre @ suf \<and> m suf \<noteq> None"
      proof (cases pre)
        case Nil
        with e ms None show ?thesis by simp
      next
        case (Cons p ps)
        with e ms show ?thesis by auto
      qed
    next
      assume "\<exists>pre suf. cs = pre @ suf \<and> m suf \<noteq> None"
      then obtain pre suf where "cs = pre @ suf" "m suf \<noteq> None" by blast
      then have "c # cs = (c # pre) @ suf \<and> m suf \<noteq> None" by simp
      then show "\<exists>pre suf. c # cs = pre @ suf \<and> m suf \<noteq> None" by blast
    qed
    with None Cons.IH show ?thesis by simp
  next
    case (Some v)
    then have "c # cs = [] @ (c # cs) \<and> m (c # cs) \<noteq> None" by simp
    then have "\<exists>pre suf. c # cs = pre @ suf \<and> m suf \<noteq> None" by blast
    with Some show ?thesis by simp
  qed
qed

lemma re_search_version_None_iff:
  "re_search version_match_at s = None \<longleftrightarrow>
     \<not> (\<exists>pre d1 d2 post. s = pre @ d1 @ ''.'' @ d2 @ post \<and> d1 \<noteq> [] \<and> d2 \<noteq> [] \<and>
        list_all isdigit d1 \<and> list_all isdigit d2)"
proof -
  have "re_search version_match_at s \<noteq> None \<longleftrightarrow>
     (\<exists>pre d1 d2 post. s = pre @ d1 @ ''.'' @ d2 @ post \<and> d1 \<noteq> [] \<and> d2 \<noteq> [] \<and>
        list_all isdigit d1 \<and> list_all isdigit d2)"
    unfolding re_search_iff version_match_at_iff by blast
  then show ?thesis by blast
qed

lemma dot_groups_chars: "c \<in> set (dot_groups s) \<Longrightarrow> isdigit c \<or> c = CHR ''.''"
  by (induction s rule: dot_groups.induct) (auto split: if_splits dest: set_takeWhileD)

lemma version_match_at_chars:
  "version_match_at s = Some v \<Longrightarrow> c \<in> set v \<Longrightarrow> isdigit c \<or> c = CHR ''.''"
  by (auto simp: version_match_at_def re_digits_def re_lit_dot
           split: if_splits list.splits Option.bind_splits
           dest: set_takeWhileD dot_groups_chars)

lemma re_search_version_chars:
  "re_search version_match_at s = Some v \<Longrightarrow> c \<in> set v \<Longrightarrow> isdigit c \<or> c = CHR ''.''"
proof (induction s)
  case Nil
  then show ?case by (simp add: version_match_at_def re_digits_def)
next
  case (Cons a s)
  then show ?case
    by (cases "version_match_at (a # s)") (auto dest: version_match_at_chars)
qed

lemma version_match_at_nondigit: "\<not> isdigit c \<Longrightarrow> version_match_at (c # cs) = None"
  by (simp add: version_match_at_def re_digits_def)

lemma re_search_version_skip:
  "\<forall>c\<in>set pre. \<not> isdigit c \<Longrightarrow> s \<noteq> [] \<Longrightarrow>
   re_search version_match_at (pre @ s) = re_search version_match_at s"
  by (induction pre) (auto simp: version_match_at_nondigit)

lemma search_239: "re_search version_match_at (''2.39-2'' @ post) = Some ''2.39''"
  by (simp add: version_match_at_def re_digits_def re_lit_def startswith_def isdigit_def)

section \<open>Properties of the LibraryExtractor\<close>

lemma create_libc_filename_Inl_iff:
  "(\<exists>e. create_libc_filename f = Inl e) \<longleftrightarrow> re_search version_match_at f = None"
  by (auto simp: create_libc_filename_def split: option.splits)

lemma extract_with_rpm2cpio_raises:
  "create_libc_filename f = Inl e \<Longrightarrow> rpm2cpio_found w \<Longrightarrow> extract_with_rpm2cpio w f out = Inl e"
  by (simp add: extract_with_rpm2cpio_def)

text \<open>
  Claim C6. \<^verbatim>\<open>create_libc_filename\<close> raises exactly when its argument contains no
  numeric-dot token (a digit run, a dot, a digit run). When it raises inside
  \<^verbatim>\<open>extract_with_rpm2cpio\<close>, that is once \<^verbatim>\<open>rpm2cpio\<close> has been started, no handler
  catches the error: the extraction of the file returns the error, and so does the loop
  over the files, from any list of names gathered so far and whatever files remain.
\<close>

theorem naming_failure_is_hard:
  "((\<exists>e. create_libc_filename f = Inl e) \<longleftrightarrow>
      \<not> (\<exists>pre d1 d2 post. f = pre @ d1 @ ''.'' @ d2 @ post \<and> d1 \<noteq> [] \<and> d2 \<noteq> [] \<and>
            list_all isdigit d1 \<and> list_all isdigit d2))
   \<and> (\<forall>e. create_libc_filename f = Inl e \<and> rpm2cpio_found w \<longrightarrow>
          extract_with_rpm2cpio w f out = Inl e \<and>
          extract_all_rpms ((f, w) # files) name_list = Inl e)"
proof (intro conjI allI impI)
  show "(\<exists>e. create_libc_filename f = Inl e) \<longleftrightarrow>
      \<not> (\<exists>pre d1 d2 post. f = pre @ d1 @ ''.'' @ d2 @ post \<and> d1 \<noteq> [] \<and> d2 \<noteq> [] \<and>
            list_all isdigit d1 \<and> list_all isdigit d2)"
    unfolding create_libc_filename_Inl_iff by (rule re_search_version_None_iff)
next
  fix e assume a: "create_libc_filename f = Inl e \<and> rpm2cpio_found w"
  then show "extract_with_rpm2cpio w f out = Inl e"
    by (simp add: extract_with_rpm2cpio_raises)
  from a have "extract_with_rpm2cpio w f binary_dir = Inl e"
    by (simp add: extract_with_rpm2cpio_raises)
  then show "extract_all_rpms ((f, w) # files) name_list = Inl e"
    by simp
qed

theorem naming_failure_is_hard_witness:
  "create_libc_filename ''../GlibcDownloads/Fedora/glibc.rpm''
     = Inl (ValueError ''Could not extract version from filename: ../GlibcDownloads/Fedora/glibc.rpm'')
   \<and> extract_all_rpms
        [(''../GlibcDownloads/Fedora/glibc.rpm'',
          \<lparr>rpm2cpio_found = True, cpio_found = True, cpio_returncode = (\<lambda>argv. 0),
           path_exists = (\<lambda>p. True)\<rparr>),
         (''../GlibcDownloads/Fedora/glibc-2.39-2.fc40.x86_64.rpm'',
          \<lparr>rpm2cpio_found = True, cpio_found = True, cpio_returncode = (\<lambda>argv. 0),
           path_exists = (\<lambda>p. True)\<rparr>)] []
     = Inl (ValueError ''Could not extract version from filename: ../GlibcDownloads/Fedora/glibc.rpm'')"
proof -
  let ?f = "''../GlibcDownloads/Fedora/glibc.rpm''"
  let ?w = "\<lparr>rpm2cpio_found = True, cpio_found = True, cpio_returncode = (\<lambda>argv. 0::int),
             path_exists = (\<lambda>p::string. True)\<rparr>"
  let ?e = "ValueError ''Could not extract version from filename: ../GlibcDownloads/Fedora/glibc.rpm''"
  have c: "create_libc_filename ?f = Inl ?e"
    by (simp add: create_libc_filename_def version_match_at_def re_digits_def isdigit_def)
  have r: "rpm2cpio_found ?w"
    by simp
  have "create_libc_filename ?f = Inl ?e \<and> rpm2cpio_found ?w \<longrightarrow>
          extract_with_rpm2cpio ?w ?f binary_dir = Inl ?e \<and>
          extract_all_rpms ((?f, ?w) # [(''../GlibcDownloads/Fedora/glibc-2.39-2.fc40.x86_64.rpm'', ?w)]) [] = Inl ?e"
    by (rule naming_failure_is_hard [THEN conjunct2, THEN spec])
  with c r show ?thesis
    by blast
qed

text \<open>
  Claim C2, as the code has it. The version taken from a file name is its first
  numeric-dot token, and the release after the hyphen is not part of it: where no digit
  stands before the token \<^verbatim>\<open>2.39-2\<close>, the derived name is \<^verbatim>\<open>libc-2.39.so\<close>, without any
  directory part.
\<close>

theorem derived_name_uses_numeric_dot_token:
  assumes "\<forall>c\<in>set pre. \<not> isdigit c"
  shows "create_libc_filename (pre @ ''2.39-2'' @ post) = Inr ''libc-2.39.so''"
proof -
  have "re_search version_match_at (pre @ ''2.39-2'' @ post) = re_search version_match_at (''2.39-2'' @ post)"
    using assms by (rule re_search_version_skip) simp
  then show ?thesis
    by (simp only: create_libc_filename_def search_239) simp
qed

theorem derived_name_uses_numeric_dot_token_witness:
  "\<not> list_ex isdigit ''../GlibcDownloads/Fedora/glibc-'' \<and>
   create_libc_filename ''../GlibcDownloads/Fedora/glibc-2.39-2.fc40.x86_64.rpm'' = Inr ''libc-2.39.so''"
proof -
  have h: "\<forall>c\<in>set ''../GlibcDownloads/Fedora/glibc-''. \<not> isdigit c"
    by (simp add: isdigit_def)
  have "create_libc_filename (''../GlibcDownloads/Fedora/glibc-'' @ ''2.39-2'' @ ''.fc40.x86_64.rpm'')
          = Inr ''libc-2.39.so''"
    using h by (rule derived_name_uses_numeric_dot_token)
  moreover have "\<not> list_ex isdigit ''../GlibcDownloads/Fedora/glibc-''"
    using h by (simp only: list_ex_iff) blast
  ultimately show ?thesis
    by simp
qed

text \<open>
  The name \<^verbatim>\<open>libc-2.39-2.so\<close> of the claim as written is not what a package file name with
  the token \<^verbatim>\<open>2.39-2\<close> gives.
\<close>

theorem derived_name_counterexample:
  "str_in ''2.39-2'' ''glibc-2.39-2.fc40.x86_64.rpm'' \<and>
   create_libc_filename ''glibc-2.39-2.fc40.x86_64.rpm'' \<noteq> Inr ''libc-2.39-2.so''"
  by (simp add: startswith_def create_libc_filename_def version_match_at_def re_digits_def
        re_lit_def isdigit_def)

section \<open>Properties of the GadgetCompiler\<close>

lemma lower_markers: "lower ''[LOAD]'' = ''[load]''" "lower ''[INFO]'' = ''[info]''"
  by (simp_all add: lower_def lower_char_def capitals_def smalls_def)

lemma noise_match_at_iff:
  "noise_match_at s \<noteq> None \<longleftrightarrow>
     (\<exists>mid post. s = mid @ post \<and> (lower mid = lower ''[LOAD]'' \<or> lower mid = lower ''[INFO]''))"
proof
  assume "noise_match_at s \<noteq> None"
  then have "lower (take 6 s) = lower ''[LOAD]'' \<or> lower (take 6 s) = lower ''[INFO]''"
    unfolding noise_match_at_def by (metis (full_types))
  moreover have "s = take 6 s @ drop 6 s" by simp
  ultimately show "\<exists>mid post. s = mid @ post \<and> (lower mid = lower ''[LOAD]'' \<or> lower mid = lower ''[INFO]'')"
    by blast
next
  assume "\<exists>mid post. s = mid @ post \<and> (lower mid = lower ''[LOAD]'' \<or> lower mid = lower ''[INFO]'')"
  then obtain mid post where s: "s = mid @ post"
    and m: "lower mid = lower ''[LOAD]'' \<or> lower mid = lower ''[INFO]''" by blast
  have "length (lower ''[LOAD]'') = 6" "length (lower ''[INFO]'') = 6"
    by (simp_all add: lower_def)
  with m have "length (lower mid) = 6" by metis
  then have "length mid = 6" by (simp add: lower_def)
  then have "take 6 s = mid" by (simp add: s)
  with m show "noise_match_at s \<noteq> None"
    unfolding noise_match_at_def by simp
qed

lemma noise_search_None_iff:
  "re_search noise_match_at line = None \<longleftrightarrow>
     \<not> (\<exists>pre mid post. line = pre @ mid @ post \<and> (lower mid = lower ''[LOAD]'' \<or> lower mid = lower ''[INFO]''))"
proof -
  have "re_search noise_match_at line \<noteq> None \<longleftrightarrow>
     (\<exists>pre suf. line = pre @ suf \<and>
        (\<exists>mid post. suf = mid @ post \<and> (lower mid = lower ''[LOAD]'' \<or> lower mid = lower ''[INFO]'')))"
    by (simp only: re_search_iff noise_match_at_iff)
  also have "\<dots> \<longleftrightarrow> (\<exists>pre mid post. line = pre @ mid @ post \<and>
       (lower mid = lower ''[LOAD]'' \<or> lower mid = lower ''[INFO]''))"
    by blast
  finally show ?thesis by blast
qed

text \<open>
  Claim C3. The lines written back are the lines read, in their order and unchanged,
  without those that contain \<^verbatim>\<open>[LOAD]\<close> or \<^verbatim>\<open>[INFO]\<close> in some letter case: a line is
  dropped exactly when a block of it equals one of the two markers up to case.
\<close>

theorem noise_lines_removed:
  "rewrite_gadget_lines lines =
     filter (\<lambda>line. \<not> (\<exists>pre mid post. line = pre @ mid @ post \<and>
                          (lower mid = lower ''[LOAD]'' \<or> lower mid = lower ''[INFO]''))) lines"
  unfolding rewrite_gadget_lines_def
  by (rule filter_cong [OF refl]) (rule noise_search_None_iff)

theorem noise_lines_removed_witness:
  "filter (\<lambda>line. \<not> (\<exists>pre mid post. line = pre @ mid @ post \<and>
                          (lower mid = lower ''[LOAD]'' \<or> lower mid = lower ''[INFO]'')))
     [''[INFO] Load gadgets'', ''0x1: pop rdi; ret;'', ''x [load] y'', ''0x2: ret;'']
   = [''0x1: pop rdi; ret;'', ''0x2: ret;'']"
proof -
  have "rewrite_gadget_lines [''[INFO] Load gadgets'', ''0x1: pop rdi; ret;'', ''x [load] y'', ''0x2: ret;'']
          = [''0x1: pop rdi; ret;'', ''0x2: ret;'']"
    by code_simp
  then show ?thesis
    by (simp only: noise_lines_removed)
qed

section \<open>Properties of the VersionCatalogCrawler\<close>

lemma digit_not_int_space: "isdigit c \<Longrightarrow> \<not> int_space c"
  by (auto simp: isdigit_def int_space_def)

lemma digit_not_sign: "isdigit c \<Longrightarrow> c \<noteq> CHR ''-'' \<and> c \<noteq> CHR ''+'' \<and> c \<noteq> CHR ''_''"
  by (auto simp: isdigit_def)

lemma dropWhile_none: "\<forall>x\<in>set xs. \<not> P x \<Longrightarrow> dropWhile P xs = xs"
  by (cases xs) auto

lemma py_int_digits:
  assumes "ds \<noteq> []" and "list_all isdigit ds"
  shows "py_int ds =
           (if int_max_str_digits < length ds then Inl IntValueError else Inr (int_of_digits ds))"
proof -
  from assms(2) have nosp: "\<forall>c\<in>set ds. \<not> int_space c" and nosp': "\<forall>c\<in>set (rev ds). \<not> int_space c"
    by (auto simp: list_all_iff digit_not_int_space)
  have t: "rev (dropWhile int_space (rev (dropWhile int_space ds))) = ds"
    by (simp only: dropWhile_none [OF nosp] dropWhile_none [OF nosp'] rev_rev_ident)
  from assms obtain c cs where ds: "ds = c # cs" and c: "isdigit c"
    by (cases ds) auto
  have sign: "\<not> startswith ds ''-''" "\<not> startswith ds ''+''"
    using digit_not_sign [OF c] by (auto simp: startswith_def ds)
  have f: "filter (\<lambda>c. c \<noteq> CHR ''_'') ds = ds"
    using assms(2) by (auto simp: list_all_iff filter_id_conv dest: digit_not_sign)
  have tw: "takeWhile isdigit ds = ds" "dropWhile isdigit ds = []"
    using assms(2) by (auto simp: list_all_iff)
  have v: "valid_int_body ds"
    by (subst valid_int_body.simps) (simp add: tw assms(1))
  show ?thesis
    unfolding py_int_def t Let_def using sign v by (simp add: f)
qed

lemma glibc_pattern_match_release:
  assumes "glibc_pattern_match s = Some (version, rel, disttag)"
  shows "rel \<noteq> [] \<and> list_all isdigit rel"
proof -
  from assms obtain r where "rel = takeWhile isdigit r" and "rel \<noteq> []"
    by (auto simp: glibc_pattern_match_def re_digits_def
             split: Option.bind_splits if_splits)
  then show ?thesis
    by (auto simp: list_all_iff dest: set_takeWhileD)
qed

lemma catalog_row_raises_iff:
  assumes "glibc_pattern_match s = Some (version, rel, disttag)"
  shows "catalog_row url t (version, rel, disttag) h = Inl e \<longleftrightarrow>
           int_max_str_digits < length rel \<and> e = IntValueError"
  using glibc_pattern_match_release [OF assms]
  by (auto simp: catalog_row_def py_int_digits)

lemma row_of_raises_iff:
  "row_of (url, link) = Inl e \<longleftrightarrow> release_too_long link \<and> e = IntValueError"
proof (cases "glibc_pattern_match (strip (get_text link))")
  case None
  then show ?thesis by (simp add: row_of_def release_too_long_def)
next
  case (Some groups)
  obtain version rel disttag where g: "groups = (version, rel, disttag)"
    by (cases groups) auto
  from Some g catalog_row_raises_iff [of "strip (get_text link)" version rel disttag] show ?thesis
    by (simp add: row_of_def release_too_long_def)
qed

lemma scrape_link_by_row:
  "scrape_link url st link =
     (case row_of (url, link) of
        Inl e \<Rightarrow> Inl e
      | Inr row \<Rightarrow>
          Inr (fst st \<or> glibc_pattern_match (strip (get_text link)) \<noteq> None,
               case row of None \<Rightarrow> snd st | Some r \<Rightarrow> store_lowest (snd st) r))"
  by (cases st)
     (auto simp: scrape_link_def row_of_def Let_def split: option.splits sum.splits)

lemma rows_of_Nil: "rows_of [] = []"
  by (simp add: rows_of_def List.map_filter_simps)

lemma rows_of_Cons:
  "rows_of (v # visits) =
     (case row_of v of Inr (Some row) \<Rightarrow> row # rows_of visits | _ \<Rightarrow> rows_of visits)"
  by (simp add: rows_of_def List.map_filter_simps split: sum.splits option.splits)

lemma rows_of_append: "rows_of (xs @ ys) = rows_of xs @ rows_of ys"
  by (simp add: rows_of_def List.map_filter_def)

lemma foldl_result_scrape_link:
  "foldl_result (\<lambda>st (url, link). scrape_link url st link) st visits = Inr st' \<Longrightarrow>
   snd st' = foldl store_lowest (snd st) (rows_of visits) \<and>
   (fst st' \<longleftrightarrow> fst st \<or> (\<exists>v\<in>set visits. glibc_pattern_match (strip (get_text (snd v))) \<noteq> None))"
proof (induction visits arbitrary: st)
  case Nil
  then show ?case by (simp add: rows_of_Nil)
next
  case (Cons v visits)
  obtain url link where v: "v = (url, link)" by (cases v)
  from Cons.prems obtain row where row: "row_of (url, link) = Inr row"
    by (cases "row_of (url, link)") (simp_all add: v scrape_link_by_row)
  let ?st1 = "(fst st \<or> glibc_pattern_match (strip (get_text link)) \<noteq> None,
               case row of None \<Rightarrow> snd st | Some r \<Rightarrow> store_lowest (snd st) r)"
  from Cons.prems row have
    "foldl_result (\<lambda>st (url, link). scrape_link url st link) ?st1 visits = Inr st'"
    by (simp add: v scrape_link_by_row)
  from Cons.IH [OF this] row show ?case
    by (cases row) (auto simp: v rows_of_Cons)
qed

lemma foldl_result_scrape_link_returns:
  "\<forall>v\<in>set visits. \<not> release_too_long (snd v) \<Longrightarrow>
   \<exists>st'. foldl_result (\<lambda>st (url, link). scrape_link url st link) st visits = Inr st'"
proof (induction visits arbitrary: st)
  case Nil
  then show ?case by simp
next
  case (Cons v visits)
  obtain url link where v: "v = (url, link)" by (cases v)
  from Cons.prems have "\<not> release_too_long link"
    by (simp add: v)
  then obtain row where "row_of (url, link) = Inr row"
    by (cases "row_of (url, link)") (auto simp: row_of_raises_iff)
  with Cons.IH Cons.prems show ?case
    by (simp add: v scrape_link_by_row)
qed

lemma foldl_result_page:
  "foldl_result (scrape_link url) st links =
   foldl_result (\<lambda>st (url, link). scrape_link url st link) st (map (Pair url) links)"
  by (induction links arbitrary: st) (simp_all split: sum.splits)

lemma scrape_visits_rows:
  "scrape_visits visits = Inr d \<Longrightarrow> d = foldl store_lowest Map.empty (rows_of visits)"
  using foldl_result_scrape_link [of "(False, Map.empty)" visits]
  by (auto simp: scrape_visits_def split: sum.splits)

lemma scrape_visits_returns:
  "\<forall>v\<in>set visits. \<not> release_too_long (snd v) \<Longrightarrow> \<exists>d. scrape_visits visits = Inr d"
  using foldl_result_scrape_link_returns [of visits "(False, Map.empty)"]
  by (auto simp: scrape_visits_def)

lemma store_lowest_other: "k \<noteq> fst row \<Longrightarrow> store_lowest d row k = d k"
  by (cases row) (simp add: store_lowest_def split: option.splits)

lemma store_lowest_same:
  "store_lowest d (k, e) k =
     (case d k of None \<Rightarrow> Some e
      | Some old \<Rightarrow> if release e < release old then Some e else Some old)"
  by (simp add: store_lowest_def split: option.splits)

lemma foldl_store_lowest_first_min:
  "(entries_with_key k rows = [] \<longrightarrow> foldl store_lowest Map.empty rows k = None) \<and>
   (entries_with_key k rows \<noteq> [] \<longrightarrow>
      (\<exists>pre e post. entries_with_key k rows = pre @ e # post \<and>
         foldl store_lowest Map.empty rows k = Some e \<and>
         (\<forall>e'\<in>set pre. release e < release e') \<and>
         (\<forall>e'\<in>set post. release e \<le> release e')))"
proof (induction rows rule: rev_induct)
  case Nil
  then show ?case by (simp add: entries_with_key_def)
next
  case (snoc row rows)
  obtain k1 e1 where row: "row = (k1, e1)" by (cases row)
  let ?d = "foldl store_lowest Map.empty rows"
  have fold_snoc: "foldl store_lowest Map.empty (rows @ [row]) = store_lowest ?d row"
    by simp
  show ?case
  proof (cases "k1 = k")
    case False
    then have "entries_with_key k (rows @ [row]) = entries_with_key k rows"
      by (simp add: entries_with_key_def row)
    moreover from False have "store_lowest ?d row k = ?d k"
      by (simp add: row store_lowest_other)
    ultimately show ?thesis using snoc.IH by (simp only: fold_snoc)
  next
    case True
    have es: "entries_with_key k (rows @ [row]) = entries_with_key k rows @ [e1]"
      by (simp add: entries_with_key_def row True)
    have d': "store_lowest ?d row k =
        (case ?d k of None \<Rightarrow> Some e1
         | Some old \<Rightarrow> if release e1 < release old then Some e1 else Some old)"
      by (simp add: row True store_lowest_same)
    show ?thesis
    proof (cases "entries_with_key k rows = []")
      case empty: True
      with snoc.IH have "?d k = None" by simp
      then have "store_lowest ?d row k = Some e1"
        by (simp add: d')
      with empty have "entries_with_key k (rows @ [row]) = [] @ e1 # [] \<and>
          store_lowest ?d row k = Some e1 \<and>
          (\<forall>e'\<in>set []. release e1 < release e') \<and> (\<forall>e'\<in>set []. release e1 \<le> release e')"
        by (simp add: es)
      then have "\<exists>pre e post. entries_with_key k (rows @ [row]) = pre @ e # post \<and>
            store_lowest ?d row k = Some e \<and>
            (\<forall>e'\<in>set pre. release e < release e') \<and> (\<forall>e'\<in>set post. release e \<le> release e')"
        by blast
      then show ?thesis by (simp only: fold_snoc) (simp add: es)
    next
      case nonempty: False
      with snoc.IH obtain pre old post where
        p: "entries_with_key k rows = pre @ old # post" "?d k = Some old"
           "\<forall>e'\<in>set pre. release old < release e'" "\<forall>e'\<in>set post. release old \<le> release e'"
        by blast
      show ?thesis
      proof (cases "release e1 < release old")
        case lower: True
        have "entries_with_key k (rows @ [row]) = (pre @ old # post) @ e1 # []"
          by (simp add: es p(1))
        moreover have "store_lowest ?d row k = Some e1"
          by (simp add: d' p(2) lower)
        moreover have "\<forall>e'\<in>set (pre @ old # post). release e1 < release e'"
          using lower p(3,4) by fastforce
        moreover have "\<forall>e'\<in>set []. release e1 \<le> release e'"
          by simp
        ultimately have "\<exists>pre e post. entries_with_key k (rows @ [row]) = pre @ e # post \<and>
            store_lowest ?d row k = Some e \<and>
            (\<forall>e'\<in>set pre. release e < release e') \<and> (\<forall>e'\<in>set post. release e \<le> release e')"
          by blast
        then show ?thesis by (simp only: fold_snoc) (simp add: es)
      next
        case keep: False
        have "entries_with_key k (rows @ [row]) = pre @ old # (post @ [e1])"
          by (simp add: es p(1))
        moreover have "store_lowest ?d row k = Some old"
          by (simp add: d' p(2) keep)
        moreover have "\<forall>e'\<in>set (post @ [e1]). release old \<le> release e'"
          using keep p(4) by auto
        ultimately have "\<exists>pre e post. entries_with_key k (rows @ [row]) = pre @ e # post \<and>
            store_lowest ?d row k = Some e \<and>
            (\<forall>e'\<in>set pre. release e < release e') \<and> (\<forall>e'\<in>set post. release e \<le> release e')"
          using p(3) by blast
        then show ?thesis by (simp only: fold_snoc) (simp add: es)
      qed
    qed
  qed
qed

lemma set_entries_with_key: "set (entries_with_key k rows) = {e. (k, e) \<in> set rows}"
  by (force simp: entries_with_key_def)

text \<open>
  The catalog that a crawl returns is the fold of the rows of the anchors it visited.
\<close>

lemma snd_scrape_page:
  assumes "scrape_glibc_versions_from_page response url d = Inr scraped"
  shows "\<exists>visits. snd scraped = foldl store_lowest d (rows_of visits)"
proof (cases response)
  case None
  with assms have "snd scraped = foldl store_lowest d (rows_of [])"
    by (auto simp: scrape_glibc_versions_from_page_def rows_of_Nil)
  then show ?thesis by blast
next
  case (Some links)
  with assms have
    "foldl_result (\<lambda>st (url, link). scrape_link url st link) (False, d) (map (Pair url) links) = Inr scraped"
    by (simp add: scrape_glibc_versions_from_page_def foldl_result_page)
  from foldl_result_scrape_link [OF this]
  have "snd scraped = foldl store_lowest d (rows_of (map (Pair url) links))"
    by simp
  then show ?thesis by blast
qed

lemma crawl_loop_catalog:
  assumes "crawl_loop lib site st = Some (Inr st')"
  shows "\<exists>visits. version_dict st' = foldl store_lowest (version_dict st) (rows_of visits)"
proof -
  define Q where "Q = (\<lambda>(lib :: urllib) (site :: nat \<Rightarrow> string \<Rightarrow> anchor list option)
      (st :: crawl_state) (r :: error + crawl_state).
      \<forall>st'. r = Inr st' \<longrightarrow>
        (\<exists>visits. version_dict st' = foldl store_lowest (version_dict st) (rows_of visits)))"
  have "Q lib site st (Inr st')"
  proof (rule crawl_loop.raw_induct [where P = Q, OF _ assms], goal_cases)
    case (1 loop lib site st r)
    let ?url = "current_url st"
    let ?scrape = "scrape_glibc_versions_from_page (site (length (requests st)) ?url) ?url (version_dict st)"
    have nil: "version_dict st = foldl store_lowest (version_dict st) (rows_of [])"
      by (simp add: rows_of_Nil)
    have "\<exists>visits. version_dict s = foldl store_lowest (version_dict st) (rows_of visits)"
      if r: "r = Inr s" for s
    proof (cases "current_url st \<noteq> [] \<and> current_url st \<notin> processed_urls st")
      case False
      with 1(2) r have "s = st" by (auto split: if_splits)
      with nil show ?thesis by blast
    next
      case True
      note active = True
      show ?thesis
      proof (cases ?scrape)
        case (Inl e)
        with active 1(2) r show ?thesis
          by (simp add: Let_def)
      next
        case (Inr scraped)
        note scr = Inr
        let ?st2 = "st\<lparr>version_dict := snd scraped,
                    processed_urls := insert ?url (processed_urls st),
                    page_count := page_count st + 1,
                    requests := requests st @ [?url, ?url]\<rparr>"
        obtain v1 where v1: "snd scraped = foldl store_lowest (version_dict st) (rows_of v1)"
          using snd_scrape_page [OF scr] by blast
        show ?thesis
        proof (cases "fst scraped")
          case False
          with active scr 1(2) r have "version_dict s = snd scraped"
            by (auto simp: Let_def split: if_splits)
          with v1 show ?thesis by metis
        next
          case True
          note found = True
          show ?thesis
          proof (cases "site (Suc (length (requests st))) ?url")
            case None
            with active scr found 1(2) r have "version_dict s = snd scraped"
              by (auto simp: Let_def split: if_splits)
            with v1 show ?thesis by metis
          next
            case (Some links)
            show ?thesis
            proof (cases "next_page_url lib ?url links")
              case (Inl e)
              with active scr found Some 1(2) r show ?thesis
                by (auto simp: Let_def split: if_splits)
            next
              case (Inr next_url)
              show ?thesis
              proof (cases "next_url \<in> processed_urls ?st2")
                case True
                with active scr found Some Inr 1(2) r have "version_dict s = snd scraped"
                  by (auto simp: Let_def split: if_splits)
                with v1 show ?thesis by metis
              next
                case False
                with active scr found Some Inr 1(2) r
                have "loop lib site (?st2\<lparr>current_url := next_url\<rparr>) = Some (Inr s)"
                  by (auto simp: Let_def split: if_splits)
                then have "Q lib site (?st2\<lparr>current_url := next_url\<rparr>) (Inr s)"
                  by (rule 1(1))
                then obtain v2 where "version_dict s = foldl store_lowest (snd scraped) (rows_of v2)"
                  by (auto simp: Q_def)
                with v1 have "version_dict s = foldl store_lowest (version_dict st) (rows_of (v1 @ v2))"
                  by (simp add: rows_of_append)
                then show ?thesis by blast
              qed
            qed
          qed
        qed
      qed
    qed
    then show ?case
      by (simp add: Q_def)
  qed
  then show ?thesis
    by (simp add: Q_def)
qed

lemma crawl_catalog_is_fold_of_rows:
  assumes "get_glibc_versions_all_pages lib site = Some (Inr st')"
  shows "\<exists>visits. version_dict st' = foldl store_lowest Map.empty (rows_of visits)"
  using crawl_loop_catalog [OF assms [unfolded get_glibc_versions_all_pages_def]]
  by simp

lemma first_min_of_rows:
  assumes "(k, e0) \<in> set rows"
  shows "\<exists>e. foldl store_lowest Map.empty rows k = Some e \<and> (k, e) \<in> set rows \<and>
             release e = Min {release e' |e'. (k, e') \<in> set rows}"
proof -
  from assms have "e0 \<in> set (entries_with_key k rows)"
    by (simp add: set_entries_with_key)
  then have "entries_with_key k rows \<noteq> []"
    by auto
  with foldl_store_lowest_first_min [of k rows] obtain pre e post where
    p: "entries_with_key k rows = pre @ e # post" "foldl store_lowest Map.empty rows k = Some e"
       "\<forall>e'\<in>set pre. release e < release e'" "\<forall>e'\<in>set post. release e \<le> release e'"
    by blast
  from p(1) have "e \<in> set (entries_with_key k rows)"
    by simp
  then have mem: "(k, e) \<in> set rows"
    by (simp add: set_entries_with_key)
  have le: "release e \<le> release e'" if "(k, e') \<in> set rows" for e'
  proof -
    from that have "e' \<in> set (pre @ e # post)"
      by (simp add: set_entries_with_key flip: p(1))
    with p(3,4) show ?thesis by fastforce
  qed
  have "{release e' |e'. (k, e') \<in> set rows} = release ` set (entries_with_key k rows)"
    by (auto simp: set_entries_with_key)
  then have fin: "finite {release e' |e'. (k, e') \<in> set rows}"
    by simp
  have "Min {release e' |e'. (k, e') \<in> set rows} = release e"
    using fin
  proof (rule Min_eqI)
    show "release e \<in> {release e' |e'. (k, e') \<in> set rows}"
      using mem by blast
  next
    fix y assume "y \<in> {release e' |e'. (k, e') \<in> set rows}"
    then show "release e \<le> y" using le by blast
  qed
  with p(2) mem show ?thesis
    by simp
qed

text \<open>
  Claim C1. Whatever anchors the crawler meets, on whatever pages and in whatever order,
  if the loop body returns a catalog for them: for every key that some row has, the
  catalog holds one entry for that key, it is the entry of one of the rows with that key,
  and its release is the least release of the rows with that key. A catalog is returned
  whenever no anchor has a release that \<^verbatim>\<open>int\<close> refuses; otherwise the conversion raises
  and no row after it is inserted. By \<open>crawl_catalog_is_fold_of_rows\<close> the catalog of
  every crawl that returns is the fold of rows that \<open>first_min_of_rows\<close> is about.
\<close>

theorem dedup_keeps_minimum_release:
  "(scrape_visits visits = Inr d \<and> (k, e0) \<in> set (rows_of visits) \<longrightarrow>
      (\<exists>e. d k = Some e \<and> (k, e) \<in> set (rows_of visits) \<and>
           release e = Min {release e' |e'. (k, e') \<in> set (rows_of visits)})) \<and>
   ((\<forall>v\<in>set visits. \<not> release_too_long (snd v)) \<longrightarrow> (\<exists>d. scrape_visits visits = Inr d))"
proof (intro conjI impI)
  assume a: "scrape_visits visits = Inr d \<and> (k, e0) \<in> set (rows_of visits)"
  then have "d = foldl store_lowest Map.empty (rows_of visits)"
    by (simp add: scrape_visits_rows)
  with a first_min_of_rows [of k e0 "rows_of visits"]
  show "\<exists>e. d k = Some e \<and> (k, e) \<in> set (rows_of visits) \<and>
           release e = Min {release e' |e'. (k, e') \<in> set (rows_of visits)}"
    by simp
next
  assume "\<forall>v\<in>set visits. \<not> release_too_long (snd v)"
  then show "\<exists>d. scrape_visits visits = Inr d"
    by (rule scrape_visits_returns)
qed

text \<open>
  Claim C10. A row whose release equals the release stored for its key leaves the catalog
  as it is. So the entry that a returned catalog holds for a key is the first of the rows
  with that key that has the least release: every row with the key met before it has a
  greater release, every row met after it has a release that is not less. The entry is
  that row's whole record, with its build id, its name and its page.
\<close>

theorem equal_release_keeps_first_entry:
  "(d k = Some old \<and> release new = release old \<longrightarrow> store_lowest d (k, new) = d) \<and>
   (scrape_visits visits = Inr c \<and> c k = Some e \<longrightarrow>
      (\<exists>pre post. entries_with_key k (rows_of visits) = pre @ e # post \<and>
         (\<forall>e'\<in>set pre. release e < release e') \<and>
         (\<forall>e'\<in>set post. release e \<le> release e')))"
proof (intro conjI impI)
  assume "d k = Some old \<and> release new = release old"
  then show "store_lowest d (k, new) = d"
    by (simp add: store_lowest_def)
next
  assume a: "scrape_visits visits = Inr c \<and> c k = Some e"
  then have s: "foldl store_lowest Map.empty (rows_of visits) k = Some e"
    using scrape_visits_rows [of visits c] by simp
  with foldl_store_lowest_first_min [of k "rows_of visits"]
  have "entries_with_key k (rows_of visits) \<noteq> []"
    by auto
  with foldl_store_lowest_first_min [of k "rows_of visits"] s
  show "\<exists>pre post. entries_with_key k (rows_of visits) = pre @ e # post \<and>
         (\<forall>e'\<in>set pre. release e < release e') \<and>
         (\<forall>e'\<in>set post. release e \<le> release e')"
    by auto
qed

theorem dedup_keeps_minimum_release_witness:
  "\<exists>d e. scrape_visits scenario_A = Inr d \<and> d (''2.39'', ''fc40'') = Some e \<and> release e = 3 \<and>
          ((''2.39'', ''fc40''), e) \<in> set (rows_of scenario_A) \<and>
          release e = Min {release e' |e'. ((''2.39'', ''fc40''), e') \<in> set (rows_of scenario_A)}"
proof -
  have short: "\<forall>v\<in>set scenario_A. \<not> release_too_long (snd v)"
    unfolding scenario_A_def by code_simp
  have row: "((''2.39'', ''fc40''),
         \<lparr>release = 5, build_id = ''2400001'', full_name = ''glibc-2.39-5.fc40'',
          source_url = base_url\<rparr>) \<in> set (rows_of scenario_A)"
    unfolding scenario_A_def by code_simp
  have three: "(case scrape_visits scenario_A of Inl err \<Rightarrow> None
                | Inr d \<Rightarrow> map_option release (d (''2.39'', ''fc40''))) = Some 3"
    unfolding scenario_A_def by code_simp
  from short obtain d where d: "scrape_visits scenario_A = Inr d"
    using dedup_keeps_minimum_release [THEN conjunct2, THEN mp] by blast
  with row obtain e where e: "d (''2.39'', ''fc40'') = Some e"
      "((''2.39'', ''fc40''), e) \<in> set (rows_of scenario_A)"
      "release e = Min {release e' |e'. ((''2.39'', ''fc40''), e') \<in> set (rows_of scenario_A)}"
    using dedup_keeps_minimum_release [THEN conjunct1, THEN mp] by blast
  from three d e(1) have "release e = 3"
    by simp
  with d e show ?thesis
    by blast
qed

theorem equal_release_keeps_first_entry_witness:
  "store_lowest
     [(''2.41'', ''fc42'') \<mapsto>
        \<lparr>release = 1, build_id = ''2600001'', full_name = ''glibc-2.41-1.fc42'', source_url = base_url\<rparr>]
     ((''2.41'', ''fc42''),
      \<lparr>release = 1, build_id = ''2600002'', full_name = ''glibc-2.41-1.fc42'',
       source_url = base_url_buildStart_50\<rparr>)
   = [(''2.41'', ''fc42'') \<mapsto>
        \<lparr>release = 1, build_id = ''2600001'', full_name = ''glibc-2.41-1.fc42'', source_url = base_url\<rparr>]
   \<and> (\<exists>c pre post.
         scrape_visits scenario_equal_release = Inr c \<and>
         c (''2.41'', ''fc42'')
           = Some \<lparr>release = 1, build_id = ''2600001'', full_name = ''glibc-2.41-1.fc42'',
                   source_url = base_url\<rparr> \<and>
         entries_with_key (''2.41'', ''fc42'') (rows_of scenario_equal_release)
           = pre @ \<lparr>release = 1, build_id = ''2600001'', full_name = ''glibc-2.41-1.fc42'',
                    source_url = base_url\<rparr> # post \<and>
         (\<forall>e'\<in>set pre. 1 < release e') \<and> (\<forall>e'\<in>set post. 1 \<le> release e'))"
proof -
  let ?k = "(''2.41'', ''fc42'')"
  let ?e1 = "\<lparr>release = 1, build_id = ''2600001'', full_name = ''glibc-2.41-1.fc42'', source_url = base_url\<rparr>"
  let ?e2 = "\<lparr>release = 1, build_id = ''2600002'', full_name = ''glibc-2.41-1.fc42'',
              source_url = base_url_buildStart_50\<rparr>"
  have a: "[?k \<mapsto> ?e1] ?k = Some ?e1 \<and> release ?e2 = release ?e1"
    by simp
  have short: "\<forall>v\<in>set scenario_equal_release. \<not> release_too_long (snd v)"
    unfolding scenario_equal_release_def by code_simp
  have first: "(case scrape_visits scenario_equal_release of Inl err \<Rightarrow> None | Inr d \<Rightarrow> d ?k) = Some ?e1"
    unfolding scenario_equal_release_def by code_simp
  from short obtain c where c: "scrape_visits scenario_equal_release = Inr c"
    using scrape_visits_returns by blast
  with first have ck: "c ?k = Some ?e1"
    by simp
  have "store_lowest [?k \<mapsto> ?e1] (?k, ?e2) = [?k \<mapsto> ?e1]"
    using a by (rule equal_release_keeps_first_entry [THEN conjunct1, THEN mp])
  moreover have "\<exists>pre post.
         entries_with_key ?k (rows_of scenario_equal_release) = pre @ ?e1 # post \<and>
         (\<forall>e'\<in>set pre. release ?e1 < release e') \<and> (\<forall>e'\<in>set post. release ?e1 \<le> release e')"
    by (rule equal_release_keeps_first_entry [THEN conjunct2, THEN mp]) (rule conjI [OF c ck])
  ultimately show ?thesis
    using c ck by auto
qed







subsection \<open>Pagination\<close>

lemma foldl_result_no_match:
  "\<forall>l\<in>set links. glibc_pattern_match (strip (get_text l)) = None \<Longrightarrow>
   foldl_result (scrape_link url) st links = Inr st"
  by (induction links) (simp_all add: scrape_link_def)

text \<open>
  Claim C8. From any state of the loop in which the current page is still to be visited:
  if the page is fetched and no anchor of it matches the version pattern, the crawl ends
  with that one request. No error is raised, the catalog is the one accumulated before,
  the page is counted, and nothing is requested after it.
\<close>

theorem zero_matching_anchors_stop_crawl:
  assumes "current_url st \<noteq> []" and "current_url st \<notin> processed_urls st"
    and "site (length (requests st)) (current_url st) = Some links"
    and "\<forall>l\<in>set links. glibc_pattern_match (strip (get_text l)) = None"
  shows "crawl_loop lib site st =
           Some (Inr (st\<lparr>processed_urls := insert (current_url st) (processed_urls st),
                        page_count := page_count st + 1,
                        requests := requests st @ [current_url st]\<rparr>))"
proof -
  have "scrape_glibc_versions_from_page (site (length (requests st)) (current_url st))
          (current_url st) (version_dict st) = Inr (False, version_dict st)"
    using assms(3,4) by (simp add: scrape_glibc_versions_from_page_def foldl_result_no_match)
  then show ?thesis
    using assms(1,2) by (subst crawl_loop.simps) (simp add: Let_def)
qed

theorem zero_matching_anchors_stop_crawl_witness:
  "get_glibc_versions_all_pages absolute_links_lib
     (\<lambda>n url. Some [\<lparr>get_text = ''Fedora 40'', href = ''taginfo?tagID=5''\<rparr>,
                     \<lparr>get_text = ''>>>'', href = ''packageinfo?buildStart=50&packageID=57''\<rparr>])
   = Some (Inr \<lparr>version_dict = Map.empty, processed_urls = {base_url}, current_url = base_url,
                page_count = 1, requests = [base_url]\<rparr>)"
proof -
  let ?site = "\<lambda>(n::nat) (url::string). Some [\<lparr>get_text = ''Fedora 40'', href = ''taginfo?tagID=5''\<rparr>,
                     \<lparr>get_text = ''>>>'', href = ''packageinfo?buildStart=50&packageID=57''\<rparr>]"
  let ?st = "\<lparr>version_dict = Map.empty, processed_urls = {}, current_url = base_url,
        page_count = 0, requests = []\<rparr>"
  have 1: "current_url ?st \<noteq> []"
    by (simp add: base_url_def)
  have 2: "current_url ?st \<notin> processed_urls ?st"
    by simp
  have 3: "?site (length (requests ?st)) (current_url ?st) =
      Some [\<lparr>get_text = ''Fedora 40'', href = ''taginfo?tagID=5''\<rparr>,
            \<lparr>get_text = ''>>>'', href = ''packageinfo?buildStart=50&packageID=57''\<rparr>]"
    by simp
  have 4: "\<forall>l\<in>set [\<lparr>get_text = ''Fedora 40'', href = ''taginfo?tagID=5''\<rparr>,
            \<lparr>get_text = ''>>>'', href = ''packageinfo?buildStart=50&packageID=57''\<rparr>].
         glibc_pattern_match (strip (get_text l)) = None"
    by code_simp
  show ?thesis
    unfolding get_glibc_versions_all_pages_def
    using zero_matching_anchors_stop_crawl [of ?st ?site, OF 1 2 3 4, of absolute_links_lib]
    by simp
qed

lemma lower_char_not_N: "lower_char c \<noteq> CHR ''N''"
  by (simp add: lower_char_def capitals_def smalls_def)

lemma str_in_subset: "str_in sub s \<Longrightarrow> set sub \<subseteq> set s"
proof (induction s)
  case Nil
  then show ?case by simp
next
  case (Cons c cs)
  from Cons.prems have "startswith (c # cs) sub \<or> str_in sub cs" by simp
  then show ?case
  proof
    assume "startswith (c # cs) sub"
    then have "sub = take (length sub) (c # cs)" by (simp add: startswith_def)
    then have "set sub \<subseteq> set (c # cs)" by (metis set_take_subset)
    then show ?thesis .
  next
    assume "str_in sub cs"
    with Cons.IH show ?thesis by auto
  qed
qed

lemma Next_never_in_lower: "\<not> str_in ''Next'' (lower t)"
proof
  assume "str_in ''Next'' (lower t)"
  then have "set ''Next'' \<subseteq> set (lower t)" by (rule str_in_subset)
  then have "CHR ''N'' \<in> set (lower t)" by simp
  then obtain x where "lower_char x = CHR ''N''"
    by (auto simp: lower_def)
  with lower_char_not_N show False
    by blast
qed

lemma startswith_drop_last:
  assumes "startswith s (p @ [c])"
  shows "startswith s p"
proof -
  from assms have "take (length (p @ [c])) s = p @ [c]"
    by (simp only: startswith_def)
  then have "take (length p) (take (length (p @ [c])) s) = take (length p) (p @ [c])"
    by simp
  then have "take (length p) s = p"
    by (simp add: min_def)
  then show ?thesis
    by (simp only: startswith_def)
qed

lemma str_in_shorter: "str_in (p @ [c]) s \<Longrightarrow> str_in p s"
  by (induction s) (auto dest: startswith_drop_last)

lemma next_page_indicator_arrows: "next_page_indicator t \<longleftrightarrow> str_in ''>>'' t"
  using str_in_shorter [of "''>>''" "CHR ''>''" t]
  by (auto simp: next_page_indicator_def Next_never_in_lower)

text \<open>
  Claim C7, at an anchor whose text is \<^verbatim>\<open>Next\<close>: the test of line 133 looks for the
  capitalised word in the lower-cased text, so by \<open>next_page_indicator_arrows\<close> only the
  arrows count, and such an anchor is not selected.
\<close>

theorem next_text_link_is_not_selected:
  "find_next_link [\<lparr>get_text = ''Next'', href = ''packageinfo?buildStart=50&packageID=57''\<rparr>] = None \<and>
   find_next_link [\<lparr>get_text = ''next page'', href = ''packageinfo?buildStart=50&packageID=57''\<rparr>] = None"
  by code_simp

section \<open>Properties of the BuildResolver\<close>

lemma assign_arch_find:
  "assign_arch archs h m =
     (case find (\<lambda>a. str_in (''/'' @ a @ ''/'') h \<and> a \<notin> dom m \<and> re_search (rpm_match_at a) h \<noteq> None) archs of
        None \<Rightarrow> m
      | Some a \<Rightarrow> m(a \<mapsto> h))"
  by (induction archs) auto

lemma resolve_link_find:
  "resolve_link m l =
     (case find (\<lambda>a. link_matches_arch a (href l) \<and> a \<notin> dom m) target_architectures of
        None \<Rightarrow> m
      | Some a \<Rightarrow> m(a \<mapsto> href l))"
proof (cases "is_glibc_rpm_link (href l)")
  case True
  then have "(\<lambda>a. str_in (''/'' @ a @ ''/'') (href l) \<and> a \<notin> dom m \<and>
                  re_search (rpm_match_at a) (href l) \<noteq> None)
             = (\<lambda>a. link_matches_arch a (href l) \<and> a \<notin> dom m)"
    by (auto simp: link_matches_arch_def)
  with True show ?thesis
    by (simp add: resolve_link_def assign_arch_find)
next
  case False
  then have "find (\<lambda>a. link_matches_arch a (href l) \<and> a \<notin> dom m) target_architectures = None"
    by (simp add: find_None_iff link_matches_arch_def)
  with False show ?thesis
    by (simp add: resolve_link_def)
qed

lemma resolve_link_cases:
  "resolve_link m l a = m a \<or>
   (resolve_link m l a = Some (href l) \<and> m a = None \<and> link_matches_arch a (href l) \<and>
    a \<in> set target_architectures)"
proof (cases "find (\<lambda>a. link_matches_arch a (href l) \<and> a \<notin> dom m) target_architectures")
  case None
  then show ?thesis by (simp add: resolve_link_find)
next
  case (Some b)
  then have "link_matches_arch b (href l) \<and> b \<notin> dom m \<and> b \<in> set target_architectures"
    by (auto simp: find_Some_iff)
  with Some show ?thesis
    by (auto simp: resolve_link_find)
qed

lemma resolve_link_passed_over:
  assumes "resolve_link m l a = None" and "link_matches_arch a (href l)"
    and "a \<in> set target_architectures"
  shows "\<exists>b\<in>set target_architectures. b \<noteq> a \<and> link_matches_arch b (href l)"
proof -
  from assms(1) resolve_link_cases [of m l a] have ma: "m a = None"
    by auto
  show ?thesis
  proof (cases "find (\<lambda>a. link_matches_arch a (href l) \<and> a \<notin> dom m) target_architectures")
    case None
    with assms(2,3) ma show ?thesis
      by (auto simp: find_None_iff)
  next
    case (Some b)
    then have b: "link_matches_arch b (href l)" "b \<in> set target_architectures"
      by (auto simp: find_Some_iff)
    from Some assms(1) have "b \<noteq> a"
      by (auto simp: resolve_link_find)
    with b show ?thesis by blast
  qed
qed

lemma resolved_first_unconsumed:
  assumes "a \<in> set target_architectures"
  shows "case foldl resolve_link Map.empty links a of
           None \<Rightarrow> \<forall>h\<in>set (map href links). link_matches_arch a h \<longrightarrow>
                     (\<exists>b\<in>set target_architectures. b \<noteq> a \<and> link_matches_arch b h)
         | Some u \<Rightarrow> \<exists>pre post. map href links = pre @ u # post \<and> link_matches_arch a u \<and>
                     (\<forall>h\<in>set pre. link_matches_arch a h \<longrightarrow>
                        (\<exists>b\<in>set target_architectures. b \<noteq> a \<and> link_matches_arch b h))"
proof (induction links rule: rev_induct)
  case Nil
  then show ?case by simp
next
  case (snoc l links)
  let ?m = "foldl resolve_link Map.empty links"
  let ?multi = "\<lambda>h. \<exists>b\<in>set target_architectures. b \<noteq> a \<and> link_matches_arch b h"
  have step: "foldl resolve_link Map.empty (links @ [l]) = resolve_link ?m l"
    by simp
  show ?case
  proof (cases "resolve_link ?m l a")
    case None
    with resolve_link_cases [of ?m l a] have "?m a = None"
      by auto
    with snoc.IH have old: "\<forall>h\<in>set (map href links). link_matches_arch a h \<longrightarrow> ?multi h"
      by simp
    have "link_matches_arch a (href l) \<longrightarrow> ?multi (href l)"
      using resolve_link_passed_over [OF None _ assms] by blast
    with old have "\<forall>h\<in>set (map href (links @ [l])). link_matches_arch a h \<longrightarrow> ?multi h"
      by simp
    with None show ?thesis
      by (simp only: step option.case)
  next
    case (Some u)
    from resolve_link_cases [of ?m l a] Some
    consider (kept) "?m a = Some u"
      | (new) "u = href l" "?m a = None" "link_matches_arch a (href l)"
      by auto
    then have "\<exists>pre post. map href (links @ [l]) = pre @ u # post \<and> link_matches_arch a u \<and>
                 (\<forall>h\<in>set pre. link_matches_arch a h \<longrightarrow> ?multi h)"
    proof cases
      case kept
      with snoc.IH obtain pre post where
        "map href links = pre @ u # post" "link_matches_arch a u"
        "\<forall>h\<in>set pre. link_matches_arch a h \<longrightarrow> ?multi h"
        by auto
      then have "map href (links @ [l]) = pre @ u # (post @ [href l]) \<and> link_matches_arch a u \<and>
                 (\<forall>h\<in>set pre. link_matches_arch a h \<longrightarrow> ?multi h)"
        by simp
      then show ?thesis by blast
    next
      case new
      with snoc.IH have "\<forall>h\<in>set (map href links). link_matches_arch a h \<longrightarrow> ?multi h"
        by simp
      with new have "map href (links @ [l]) = map href links @ u # [] \<and> link_matches_arch a u \<and>
                 (\<forall>h\<in>set (map href links). link_matches_arch a h \<longrightarrow> ?multi h)"
        by simp
      then show ?thesis by blast
    qed
    with Some show ?thesis
      by (simp only: step option.case)
  qed
qed

lemma resolved_keys: "foldl resolve_link Map.empty links a = Some u \<Longrightarrow> a \<in> set target_architectures"
proof (induction links arbitrary: u rule: rev_induct)
  case Nil
  then show ?case by simp
next
  case (snoc l links)
  from snoc.prems have "resolve_link (foldl resolve_link Map.empty links) l a = Some u"
    by simp
  with resolve_link_cases [of "foldl resolve_link Map.empty links" l a]
  have "foldl resolve_link Map.empty links a = Some u \<or> a \<in> set target_architectures"
    by auto
  with snoc.IH show ?case
    by blast
qed

lemma find_first_at:
  "\<forall>x\<in>set pre. \<not> P x \<Longrightarrow> P u \<Longrightarrow> find P (pre @ u # post) = Some u"
  by (induction pre) auto

lemma matches_not_excluded:
  "link_matches_arch a u \<Longrightarrow> ex \<in> set excluded_substrings \<Longrightarrow> \<not> str_in ex u"
  by (auto simp: link_matches_arch_def is_glibc_rpm_link_def list_ex_iff)

lemma find_first_is_earlier:
  "find P xs = Some b \<Longrightarrow> P a \<Longrightarrow> a \<in> set xs \<Longrightarrow> a \<noteq> b \<Longrightarrow>
   b \<in> set (takeWhile (\<lambda>x. x \<noteq> a) xs)"
proof (induction xs)
  case Nil
  then show ?case by simp
next
  case (Cons x xs)
  show ?case
  proof (cases "P x")
    case True
    with Cons.prems have "b = x" by simp
    with Cons.prems show ?thesis by auto
  next
    case False
    with Cons.prems have "find P xs = Some b" "a \<noteq> x" "a \<in> set xs"
      by auto
    with Cons.IH Cons.prems show ?thesis by simp
  qed
qed

lemma given_positionsI:
  assumes "\<And>a u. r a = Some u \<Longrightarrow> pos a < length links \<and> href (links ! pos a) = u"
    and "\<And>a b. r a \<noteq> None \<Longrightarrow> r b \<noteq> None \<Longrightarrow> pos a = pos b \<Longrightarrow> a = b"
    and "\<And>a j. a \<in> set target_architectures \<Longrightarrow> j < length links \<Longrightarrow>
           link_matches_arch a (href (links ! j)) \<Longrightarrow> r a = None \<or> j < pos a \<Longrightarrow>
           \<exists>b. earlier_arch b a \<and> r b \<noteq> None \<and> pos b = j"
  shows "given_positions links r pos"
proof -
  have 1: "\<forall>a u. r a = Some u \<longrightarrow> pos a < length links \<and> href (links ! pos a) = u"
    using assms(1) by blast
  have 2: "\<forall>a b. r a \<noteq> None \<and> r b \<noteq> None \<and> pos a = pos b \<longrightarrow> a = b"
    using assms(2) by blast
  have 3: "\<forall>a\<in>set target_architectures. \<forall>j<length links.
         link_matches_arch a (href (links ! j)) \<and> (r a = None \<or> j < pos a) \<longrightarrow>
         (\<exists>b. earlier_arch b a \<and> r b \<noteq> None \<and> pos b = j)"
    using assms(3) by blast
  from 1 2 3 show ?thesis
    unfolding given_positions_def by (intro conjI)
qed

lemma resolved_positions:
  "\<exists>pos. given_positions links (foldl resolve_link Map.empty links) pos"
proof (induction links rule: rev_induct)
  case Nil
  then show ?case by (simp add: given_positions_def)
next
  case (snoc l links)
  let ?r = "foldl resolve_link Map.empty links"
  let ?r' = "foldl resolve_link Map.empty (links @ [l])"
  let ?n = "length links"
  let ?F = "find (\<lambda>a. link_matches_arch a (href l) \<and> a \<notin> dom ?r) target_architectures"
  from snoc.IH obtain pos where IH: "given_positions links ?r pos" ..
  have J1: "pos a < ?n \<and> href (links ! pos a) = u" if "?r a = Some u" for a u
    using IH that unfolding given_positions_def by blast
  have J2: "a = b" if "?r a \<noteq> None" "?r b \<noteq> None" "pos a = pos b" for a b
    using IH that unfolding given_positions_def by blast
  have J3: "\<exists>b. earlier_arch b a \<and> ?r b \<noteq> None \<and> pos b = j"
    if "a \<in> set target_architectures" "j < ?n" "link_matches_arch a (href (links ! j))"
       "?r a = None \<or> j < pos a" for a j
    using IH that unfolding given_positions_def by blast
  have step: "?r' = (case ?F of None \<Rightarrow> ?r | Some b \<Rightarrow> ?r(b \<mapsto> href l))"
    by (simp add: resolve_link_find)
  have old_lt: "pos a < ?n" if "?r a \<noteq> None" for a
    using J1 [of a] that by auto
  show ?case
  proof (cases ?F)
    case None
    then have r': "?r' = ?r"
      by (simp only: step option.case)
    have K1: "pos a < length (links @ [l]) \<and> href ((links @ [l]) ! pos a) = u" if "?r a = Some u" for a u
      using J1 [OF that] by (simp add: nth_append)
    have K3: "\<exists>b. earlier_arch b a \<and> ?r b \<noteq> None \<and> pos b = j"
      if a: "a \<in> set target_architectures" and j: "j < length (links @ [l])"
        and m: "link_matches_arch a (href ((links @ [l]) ! j))"
        and p: "?r a = None \<or> j < pos a" for a j
    proof (cases "j < ?n")
      case True
      then have "link_matches_arch a (href (links ! j))"
        using m by (simp add: nth_append)
      with a True p show ?thesis
        by (intro J3)
    next
      case False
      with j have jn: "j = ?n" by simp
      with m have mh: "link_matches_arch a (href l)" by simp
      have "?r a = None"
      proof (rule ccontr)
        assume "?r a \<noteq> None"
        with old_lt [of a] p jn show False by simp
      qed
      then have "a \<notin> dom ?r" by (simp add: domIff)
      with None a mh have False
        by (simp add: find_None_iff)
      then show ?thesis ..
    qed
    have "given_positions (links @ [l]) ?r pos"
      using K1 J2 K3 by (rule given_positionsI)
    then have "given_positions (links @ [l]) ?r' pos"
      by (simp only: r')
    then show ?thesis by blast
  next
    case (Some b)
    then have b: "b \<in> set target_architectures" "link_matches_arch b (href l)" "?r b = None"
      by (auto simp: find_Some_iff domIff)
    define r1 where "r1 = ?r(b \<mapsto> href l)"
    from Some have r': "?r' = r1"
      by (simp only: step option.case r1_def)
    define pos' where "pos' = pos(b := ?n)"
    have other: "r1 a = ?r a \<and> pos' a = pos a" if "a \<noteq> b" for a
      using that by (simp add: r1_def pos'_def)
    have atb: "r1 b = Some (href l)" "pos' b = ?n"
      by (simp_all add: r1_def pos'_def)
    have K1: "pos' a < length (links @ [l]) \<and> href ((links @ [l]) ! pos' a) = u" if "r1 a = Some u" for a u
    proof (cases "a = b")
      case True
      with that atb show ?thesis by simp
    next
      case False
      with that other [of a] have "?r a = Some u" "pos' a = pos a" by simp_all
      with J1 [of a u] show ?thesis
        by (simp add: nth_append)
    qed
    have K2: "a = c" if "r1 a \<noteq> None" "r1 c \<noteq> None" "pos' a = pos' c" for a c
    proof (cases "a = b")
      case ab: True
      show ?thesis
      proof (cases "c = b")
        case True
        with ab show ?thesis by simp
      next
        case False
        with that other [of c] have "?r c \<noteq> None" "pos' c = pos c" by simp_all
        with old_lt [of c] ab that(3) atb(2) show ?thesis by simp
      qed
    next
      case ab: False
      with that other [of a] have ra: "?r a \<noteq> None" "pos' a = pos a" by simp_all
      show ?thesis
      proof (cases "c = b")
        case True
        with old_lt [of a] ra that(3) atb(2) show ?thesis by simp
      next
        case False
        with that other [of c] have "?r c \<noteq> None" "pos' c = pos c" by simp_all
        with ra that(3) show ?thesis
          by (intro J2) simp_all
      qed
    qed
    have K3: "\<exists>c. earlier_arch c a \<and> r1 c \<noteq> None \<and> pos' c = j"
      if a: "a \<in> set target_architectures" and j: "j < length (links @ [l])"
        and m: "link_matches_arch a (href ((links @ [l]) ! j))"
        and p: "r1 a = None \<or> j < pos' a" for a j
    proof (cases "j < ?n")
      case True
      then have m': "link_matches_arch a (href (links ! j))"
        using m by (simp add: nth_append)
      have "?r a = None \<or> j < pos a"
      proof (cases "a = b")
        case True
        with b(3) show ?thesis by simp
      next
        case False
        with p other [of a] show ?thesis by simp
      qed
      from J3 [OF a True m' this] obtain c where
        c: "earlier_arch c a" "?r c \<noteq> None" "pos c = j"
        by blast
      from c(2) b(3) have "c \<noteq> b" by auto
      with c other [of c] have "earlier_arch c a \<and> r1 c \<noteq> None \<and> pos' c = j" by simp
      then show ?thesis ..
    next
      case False
      with j have jn: "j = ?n" by simp
      with m have mh: "link_matches_arch a (href l)" by simp
      have ab: "a \<noteq> b"
      proof
        assume "a = b"
        with p atb jn show False by simp
      qed
      have "?r a = None"
      proof (rule ccontr)
        assume "?r a \<noteq> None"
        with old_lt [of a] other [OF ab] p jn show False by simp
      qed
      then have "a \<notin> dom ?r" by (simp add: domIff)
      with mh have "link_matches_arch a (href l) \<and> a \<notin> dom ?r" by simp
      with Some a ab have "b \<in> set (takeWhile (\<lambda>x. x \<noteq> a) target_architectures)"
        by (intro find_first_is_earlier [where P = "\<lambda>a. link_matches_arch a (href l) \<and> a \<notin> dom ?r"]) simp_all
      then have "earlier_arch b a"
        by (simp add: earlier_arch_def)
      with atb jn have "earlier_arch b a \<and> r1 b \<noteq> None \<and> pos' b = j" by simp
      then show ?thesis ..
    qed
    have "given_positions (links @ [l]) r1 pos'"
      using K1 K2 K3 by (rule given_positionsI)
    then have "given_positions (links @ [l]) ?r' pos'"
      by (simp only: r')
    then show ?thesis by blast
  qed
qed

text \<open>
  Claim C4, as the code has it. The keys of the mapping are among the three target
  architectures. A mapped URL is a link of the page that matches its architecture (the
  link test, the path segment and the file name pattern), it contains none of the
  excluded substrings, and every link before it that matches the architecture matches
  another target architecture as well. On a page where no link matches two target
  architectures, each architecture has the first link of the page that matches it, or
  none if there is none. In general a link is given to one architecture only, the first
  in the order of the target architectures that it matches and that is still unresolved:
  the links of the resolved architectures stand at different positions of the page, and
  every link that matches an architecture and stands before the link of that
  architecture, or anywhere if the architecture has none, was given to an architecture
  earlier in the order.
\<close>

theorem resolver_selects_main_package_links:
  "dom (extract_rpm_urls_from_buildinfo (Some links)) \<subseteq> {''aarch64'', ''i686'', ''x86_64''} \<and>
   (\<forall>a u. extract_rpm_urls_from_buildinfo (Some links) a = Some u \<longrightarrow>
      (\<exists>pre post. map href links = pre @ u # post \<and>
         (\<forall>h\<in>set pre. link_matches_arch a h \<longrightarrow>
            (\<exists>b\<in>set target_architectures. b \<noteq> a \<and> link_matches_arch b h))) \<and>
      link_matches_arch a u \<and>
      (\<forall>ex\<in>set excluded_substrings. \<not> str_in ex u)) \<and>
   ((\<forall>h\<in>set (map href links). \<forall>a\<in>set target_architectures. \<forall>b\<in>set target_architectures.
        link_matches_arch a h \<and> link_matches_arch b h \<longrightarrow> a = b) \<longrightarrow>
    (\<forall>a\<in>set target_architectures.
        extract_rpm_urls_from_buildinfo (Some links) a = find (link_matches_arch a) (map href links))) \<and>
   (\<exists>pos. given_positions links (extract_rpm_urls_from_buildinfo (Some links)) pos)"
proof (intro conjI allI impI ballI)
  show "\<exists>pos. given_positions links (extract_rpm_urls_from_buildinfo (Some links)) pos"
    using resolved_positions [of links] by (simp add: extract_rpm_urls_from_buildinfo_def)
next
  show "dom (extract_rpm_urls_from_buildinfo (Some links)) \<subseteq> {''aarch64'', ''i686'', ''x86_64''}"
    using resolved_keys [of links]
    by (auto simp: extract_rpm_urls_from_buildinfo_def target_architectures_def)
next
  fix a u assume r: "extract_rpm_urls_from_buildinfo (Some links) a = Some u"
  then have f: "foldl resolve_link Map.empty links a = Some u"
    by (simp add: extract_rpm_urls_from_buildinfo_def)
  then have a: "a \<in> set target_architectures"
    by (rule resolved_keys)
  from resolved_first_unconsumed [OF a, of links] f
  obtain pre post where p: "map href links = pre @ u # post" "link_matches_arch a u"
    "\<forall>h\<in>set pre. link_matches_arch a h \<longrightarrow>
        (\<exists>b\<in>set target_architectures. b \<noteq> a \<and> link_matches_arch b h)"
    by auto
  from p(1,3) show "\<exists>pre post. map href links = pre @ u # post \<and>
         (\<forall>h\<in>set pre. link_matches_arch a h \<longrightarrow>
            (\<exists>b\<in>set target_architectures. b \<noteq> a \<and> link_matches_arch b h))"
    by blast
  from p(2) show "link_matches_arch a u" .
  fix ex assume "ex \<in> set excluded_substrings"
  with p(2) show "\<not> str_in ex u" by (rule matches_not_excluded)
next
  fix a
  assume uniq: "\<forall>h\<in>set (map href links). \<forall>a\<in>set target_architectures. \<forall>b\<in>set target_architectures.
        link_matches_arch a h \<and> link_matches_arch b h \<longrightarrow> a = b"
    and a: "a \<in> set target_architectures"
  have single: "\<not> (\<exists>b\<in>set target_architectures. b \<noteq> a \<and> link_matches_arch b h)"
    if "h \<in> set (map href links)" "link_matches_arch a h" for h
    using uniq a that by blast
  show "extract_rpm_urls_from_buildinfo (Some links) a = find (link_matches_arch a) (map href links)"
  proof (cases "foldl resolve_link Map.empty links a")
    case None
    with resolved_first_unconsumed [OF a, of links]
    have "\<forall>h\<in>set (map href links). \<not> link_matches_arch a h"
      using single by auto
    then have "find (link_matches_arch a) (map href links) = None"
      by (simp add: find_None_iff)
    with None show ?thesis
      by (simp add: extract_rpm_urls_from_buildinfo_def)
  next
    case (Some u)
    with resolved_first_unconsumed [OF a, of links]
    obtain pre post where p: "map href links = pre @ u # post" "link_matches_arch a u"
      "\<forall>h\<in>set pre. link_matches_arch a h \<longrightarrow>
          (\<exists>b\<in>set target_architectures. b \<noteq> a \<and> link_matches_arch b h)"
      by auto
    have "\<forall>h\<in>set pre. \<not> link_matches_arch a h"
    proof
      fix h assume "h \<in> set pre"
      then have "h \<in> set (map href links)" by (simp add: p(1))
      with single p(3) \<open>h \<in> set pre\<close> show "\<not> link_matches_arch a h" by blast
    qed
    then have "find (link_matches_arch a) (pre @ u # post) = Some u"
      using p(2) by (rule find_first_at)
    with Some show ?thesis
      by (simp add: extract_rpm_urls_from_buildinfo_def p(1))
  qed
qed

text \<open>
  A link that matches two architectures is given to the first of them only: on this page
  \<^verbatim>\<open>x86_64\<close> is mapped to the second link, and the first link matches \<^verbatim>\<open>x86_64\<close> too.
\<close>

theorem resolver_first_match_counterexample:
  "find (link_matches_arch ''x86_64'') (map href multi_arch_page)
     = Some ''/aarch64/x86_64/glibc-2.39-2.fc40.aarch64.rpm?alt=glibc-2.39-2.fc40.x86_64.rpm'' \<and>
   extract_rpm_urls_from_buildinfo (Some multi_arch_page) ''x86_64''
     = Some ''/x86_64/glibc-2.39-2.fc40.x86_64.rpm''"
  unfolding multi_arch_page_def by code_simp

theorem resolver_selects_main_package_links_witness:
  "extract_rpm_urls_from_buildinfo (Some scenario_B) ''x86_64''
     = Some ''/packages/x86_64/glibc-2.39-2.fc40.x86_64.rpm'' \<and>
   link_matches_arch ''x86_64'' ''/packages/x86_64/glibc-2.39-2.fc40.x86_64.rpm'' \<and>
   \<not> str_in ''devel'' ''/packages/x86_64/glibc-2.39-2.fc40.x86_64.rpm'' \<and>
   (\<exists>pos. given_positions multi_arch_page (extract_rpm_urls_from_buildinfo (Some multi_arch_page)) pos \<and>
          pos ''aarch64'' = 0 \<and> pos ''x86_64'' = 1)"
proof -
  let ?u = "''/packages/x86_64/glibc-2.39-2.fc40.x86_64.rpm''"
  have single: "\<forall>h\<in>set (map href scenario_B). \<forall>a\<in>set target_architectures.
      \<forall>b\<in>set target_architectures. link_matches_arch a h \<and> link_matches_arch b h \<longrightarrow> a = b"
    unfolding scenario_B_def by code_simp
  have first: "find (link_matches_arch ''x86_64'') (map href scenario_B) = Some ?u"
    unfolding scenario_B_def by code_simp
  have arch: "''x86_64'' \<in> set target_architectures"
    by (simp add: target_architectures_def)
  have "\<forall>a\<in>set target_architectures.
          extract_rpm_urls_from_buildinfo (Some scenario_B) a = find (link_matches_arch a) (map href scenario_B)"
    using single
    by (rule resolver_selects_main_package_links [THEN conjunct2, THEN conjunct2, THEN conjunct1, THEN mp])
  with arch first have r: "extract_rpm_urls_from_buildinfo (Some scenario_B) ''x86_64'' = Some ?u"
    by simp
  then have "link_matches_arch ''x86_64'' ?u \<and> (\<forall>ex\<in>set excluded_substrings. \<not> str_in ex ?u)"
    using resolver_selects_main_package_links [of scenario_B, THEN conjunct2, THEN conjunct1, THEN spec, THEN spec, THEN mp]
    by blast
  moreover have "''devel'' \<in> set excluded_substrings"
    by (simp add: excluded_substrings_def)
  ultimately have B: "link_matches_arch ''x86_64'' ?u \<and> \<not> str_in ''devel'' ?u"
    by blast
  let ?h0 = "''/aarch64/x86_64/glibc-2.39-2.fc40.aarch64.rpm?alt=glibc-2.39-2.fc40.x86_64.rpm''"
  let ?h1 = "''/x86_64/glibc-2.39-2.fc40.x86_64.rpm''"
  let ?m = "extract_rpm_urls_from_buildinfo (Some multi_arch_page)"
  have m0: "?m ''aarch64'' = Some ?h0" and m1: "?m ''x86_64'' = Some ?h1"
    unfolding multi_arch_page_def by code_simp+
  obtain pos where g: "given_positions multi_arch_page ?m pos"
    using resolver_selects_main_package_links [of multi_arch_page, THEN conjunct2, THEN conjunct2, THEN conjunct2]
    by blast
  from g have G: "\<forall>a u. ?m a = Some u \<longrightarrow>
      pos a < length multi_arch_page \<and> href (multi_arch_page ! pos a) = u"
    unfolding given_positions_def by (rule conjunct1)
  have len: "length multi_arch_page = 2"
    by (simp add: multi_arch_page_def)
  have at: "pos a < 2 \<and> href (multi_arch_page ! pos a) = u" if "?m a = Some u" for a u
    using G [rule_format, OF that] len by simp
  have links: "href (multi_arch_page ! 0) = ?h0" "href (multi_arch_page ! 1) = ?h1"
    by (simp_all add: multi_arch_page_def)
  have p0: "pos ''aarch64'' = 0"
  proof (rule ccontr)
    assume "pos ''aarch64'' \<noteq> 0"
    with at [OF m0] have "pos ''aarch64'' = 1" by auto
    with at [OF m0] links(2) show False by simp
  qed
  have p1: "pos ''x86_64'' = 1"
  proof (rule ccontr)
    assume "pos ''x86_64'' \<noteq> 1"
    with at [OF m1] have "pos ''x86_64'' = 0" by auto
    with at [OF m1] links(1) show False by simp
  qed
  from g p0 p1 have "\<exists>pos. given_positions multi_arch_page ?m pos \<and> pos ''aarch64'' = 0 \<and> pos ''x86_64'' = 1"
    by blast
  with r B show ?thesis
    by blast
qed

section \<open>Properties of the ArtifactDownloader\<close>





end
